theory Spec2Isabelle
  imports Main "HOL-Library.Word"
begin

section \<open>Common data model (Common.h)\<close>

text \<open>
  Node identifiers are \<open>uint64_t\<close>, ports \<open>uint16_t\<close>, payload bytes \<open>uint8_t\<close>.
  Time points of \<open>std::chrono::system_clock\<close> are modelled as whole seconds since the
  epoch (type \<open>int\<close>); the clock reading \<open>now\<close> is a parameter of every operation that
  reads the clock, and \<open>duration_cast<seconds>(a - b).count()\<close> is \<open>a - b\<close>. The failure
  detector of \<open>DynamicNodeManager\<close> is the exception: it keeps the resolution of the
  clock (see there). Every operation is executed sequentially, start to end, by one
  thread.
\<close>

type_synonym NodeID = "64 word"
type_synonym Port = "16 word"
type_synonym byte = "8 word"

datatype MessageType =
    JOIN_REQUEST | JOIN_RESPONSE | LEAVE_NOTIFICATION | HEARTBEAT | DATA_MESSAGE
  | TOPOLOGY_UPDATE | PEER_DISCOVERY | ROUTE_MESSAGE | MESSAGE_ACK | DATA_CHUNK
  | TRANSFER_REQUEST | TRANSFER_RESPONSE

record NetworkAddress =
  host :: string
  port :: Port

record Message =
  msg_type :: MessageType
  senderID :: NodeID
  receiverID :: NodeID
  payload :: "byte list"
  timestamp :: "64 word"

subsection \<open>\<open>std::map\<close> as an association list in key order\<close>

text \<open>
  A \<open>std::map\<close> is a list of key/value pairs, iterated in list order. \<open>map_of\<close> is
  \<open>find\<close>; \<open>map_assign\<close> is \<open>m[k] = v\<close> (insert at the key's place, or overwrite);
  \<open>map_modify\<close> changes the value behind the iterator that \<open>find\<close> returned;
  \<open>map_erase\<close> is \<open>erase(k)\<close>.
\<close>

fun map_assign :: "'k::linorder \<Rightarrow> 'v \<Rightarrow> ('k \<times> 'v) list \<Rightarrow> ('k \<times> 'v) list" where
  "map_assign k v [] = [(k, v)]"
| "map_assign k v ((k', v') # m) =
     (if k < k' then (k, v) # (k', v') # m
      else if k = k' then (k, v) # m
      else (k', v') # map_assign k v m)"

definition map_modify :: "'k \<Rightarrow> ('v \<Rightarrow> 'v) \<Rightarrow> ('k \<times> 'v) list \<Rightarrow> ('k \<times> 'v) list" where
  "map_modify k f m = map (\<lambda>(k', v). if k' = k then (k', f v) else (k', v)) m"

definition map_erase :: "'k \<Rightarrow> ('k \<times> 'v) list \<Rightarrow> ('k \<times> 'v) list" where
  "map_erase k m = filter (\<lambda>p. fst p \<noteq> k) m"

text \<open>The keys of a \<open>std::map\<close> are strictly ascending, hence distinct.\<close>

definition keys_ascending :: "('k::linorder \<times> 'v) list \<Rightarrow> bool" where
  "keys_ascending m = sorted_wrt (<) (map fst m)"

subsection \<open>Calls that do not return a value\<close>

text \<open>
  Every mutex of the source is a \<open>std::mutex\<close>, taken with \<open>std::lock_guard\<close>. Most
  member functions lock once on entry and call nothing that locks the same mutex: run one
  after the other they find the mutex free and release it on return, and that lock is
  left out. \<open>TopologyManager\<close> and \<open>DynamicNodeManager\<close> also call, with the mutex held,
  member functions that lock the same mutex again. A \<open>std::mutex\<close> is not recursive: a
  second \<open>lock\<close> by the thread that owns it does not succeed (the standard leaves it
  undefined, the implementations block for ever), so such a call does not return. For the
  member functions on these paths the state of the mutex at the call is an argument
  (\<open>True\<close>: held by the calling thread), and a call yields a value of \<open>error + 'a\<close>:
  \<open>Inl Deadlock\<close> when it blocks on a mutex its own thread holds, \<open>Inl UndefinedBehaviour\<close>
  when it steps an iterator that an \<open>erase\<close> has invalidated, \<open>Inl OutOfBounds\<close> when it
  reads outside a buffer, and \<open>Inr\<close> of the result when it returns.
\<close>

datatype error = Deadlock | UndefinedBehaviour | OutOfBounds

text \<open>Sequencing: the second step runs on the result of the first, if there is one.\<close>

definition then_do :: "error + 'a \<Rightarrow> ('a \<Rightarrow> error + 'b) \<Rightarrow> error + 'b" where
  "then_do first next_step = (case first of Inl e \<Rightarrow> Inl e | Inr x \<Rightarrow> next_step x)"

text \<open>
  \<open>std::lock_guard<std::mutex> lock(m)\<close> at the head of a block: \<open>locked\<close> is the state of
  \<open>m\<close> when the block is entered by the only thread there is. The block runs with the
  mutex held, and the guard releases it when the block is left.
\<close>

definition lock_guard :: "bool \<Rightarrow> error + 'a \<Rightarrow> error + 'a" where
  "lock_guard locked block = (if locked then Inl Deadlock else block)"

section \<open>Reliable messaging (ReliableMessaging.h, ReliableMessaging.cpp)\<close>

datatype AckStatus = PENDING | ACKNOWLEDGED | TIMEOUT | FAILED

record ReliableMessage =
  messageID :: "64 word"
  message :: Message
  destinationID :: NodeID
  ackStatus :: AckStatus
  retryCount :: int
  sendTime :: int
  lastRetry :: int

text \<open>
  The state of a \<open>ReliableMessaging\<close> object. The two callbacks are \<open>std::function\<close>
  members that may be empty: \<open>onMessageDelivered_set\<close> and \<open>onMessageFailed_set\<close> say
  whether one is registered, \<open>delivered_calls\<close> and \<open>failed_calls\<close> list the calls made
  to them, in order. \<open>transport_log\<close> lists the messages handed to
  \<open>NetworkManager::sendMessageToPeer\<close>, with the peer they were addressed to. The three
  counters are \<open>size_t\<close>.
\<close>

record ReliableMessaging =
  pendingMessages :: "(64 word \<times> ReliableMessage) list"
  sentMessages :: "64 word"
  acknowledgedMessages :: "64 word"
  failedMessages :: "64 word"
  onMessageDelivered_set :: bool
  onMessageFailed_set :: bool
  delivered_calls :: "(64 word \<times> NodeID) list"
  failed_calls :: "(64 word \<times> NodeID) list"
  transport_log :: "(NodeID \<times> Message) list"

definition acknowledgeMessage ::
  "64 word \<Rightarrow> NodeID \<Rightarrow> ReliableMessaging \<Rightarrow> bool \<times> ReliableMessaging" where
  "acknowledgeMessage mid sender s =
     (case map_of (pendingMessages s) mid of
        Some r \<Rightarrow>
          (True,
           s\<lparr>pendingMessages :=
                map_modify mid (\<lambda>r. r\<lparr>ackStatus := ACKNOWLEDGED\<rparr>) (pendingMessages s),
             acknowledgedMessages := acknowledgedMessages s + 1,
             delivered_calls :=
                (if onMessageDelivered_set s then delivered_calls s @ [(mid, sender)]
                 else delivered_calls s)\<rparr>)
      | None \<Rightarrow> (False, s))"

definition isMessageAcknowledged :: "64 word \<Rightarrow> ReliableMessaging \<Rightarrow> bool" where
  "isMessageAcknowledged mid s =
     (case map_of (pendingMessages s) mid of
        Some r \<Rightarrow> ackStatus r = ACKNOWLEDGED
      | None \<Rightarrow> False)"

definition markMessageFailed :: "64 word \<Rightarrow> ReliableMessaging \<Rightarrow> ReliableMessaging" where
  "markMessageFailed mid s =
     (case map_of (pendingMessages s) mid of
        Some r \<Rightarrow>
          s\<lparr>pendingMessages :=
               map_erase mid (map_modify mid (\<lambda>r. r\<lparr>ackStatus := FAILED\<rparr>) (pendingMessages s)),
            failedMessages := failedMessages s + 1,
            failed_calls :=
               (if onMessageFailed_set s then failed_calls s @ [(mid, destinationID r)]
                else failed_calls s)\<rparr>
      | None \<Rightarrow> s)"

text \<open>\<open>sendWithRetry\<close> hands the stored message to the transport; its result is not used
  by the retry loop.\<close>

definition sendWithRetry :: "ReliableMessage \<Rightarrow> ReliableMessaging \<Rightarrow> ReliableMessaging" where
  "sendWithRetry r s = s\<lparr>transport_log := transport_log s @ [(destinationID r, message r)]\<rparr>"

text \<open>
  \<open>sendReliableMessage\<close>: \<open>mid\<close> is the id drawn by \<open>generateMessageID\<close> and \<open>ok\<close> the
  answer of the transport to the first hand-off.
\<close>

definition sendReliableMessage ::
  "64 word \<Rightarrow> bool \<Rightarrow> int \<Rightarrow> NodeID \<Rightarrow> Message \<Rightarrow> ReliableMessaging \<Rightarrow> 64 word \<times> ReliableMessaging" where
  "sendReliableMessage mid ok now targetID msg s =
     (let r = \<lparr>messageID = mid, message = msg, destinationID = targetID, ackStatus = PENDING,
               retryCount = 0, sendTime = now, lastRetry = now\<rparr>;
          s1 = s\<lparr>pendingMessages := map_assign mid r (pendingMessages s),
                 transport_log := transport_log s @ [(targetID, msg)]\<rparr>
      in if ok then (mid, s1\<lparr>sentMessages := sentMessages s1 + 1\<rparr>)
         else (0, markMessageFailed mid s1))"

text \<open>The first loop of \<open>retryPendingMessages\<close>: it fills \<open>toRetry\<close> and \<open>toFail\<close>.\<close>

fun scan_pending ::
  "int \<Rightarrow> int \<Rightarrow> int \<Rightarrow> (64 word \<times> ReliableMessage) list \<Rightarrow> 64 word list \<times> 64 word list
     \<Rightarrow> 64 word list \<times> 64 word list" where
  "scan_pending now timeoutSeconds maxRetries [] acc = acc"
| "scan_pending now timeoutSeconds maxRetries ((k, msg) # rest) (toRetry, toFail) =
     (if ackStatus msg = ACKNOWLEDGED then
        scan_pending now timeoutSeconds maxRetries rest (toRetry, toFail)
      else if now - lastRetry msg \<ge> timeoutSeconds then
        (if retryCount msg < maxRetries then
           scan_pending now timeoutSeconds maxRetries rest (toRetry @ [k], toFail)
         else
           scan_pending now timeoutSeconds maxRetries rest (toRetry, toFail @ [k]))
      else scan_pending now timeoutSeconds maxRetries rest (toRetry, toFail))"

text \<open>The second loop: every id of \<open>toRetry\<close> still in the table is counted, stamped and
  sent again (the copy sent is the one taken before the count is raised).\<close>

fun retry_loop :: "int \<Rightarrow> 64 word list \<Rightarrow> ReliableMessaging \<Rightarrow> ReliableMessaging" where
  "retry_loop now [] s = s"
| "retry_loop now (msgID # rest) s =
     (case map_of (pendingMessages s) msgID of
        Some msg \<Rightarrow>
          retry_loop now rest
            (sendWithRetry msg
               (s\<lparr>pendingMessages :=
                    map_modify msgID (\<lambda>r. r\<lparr>retryCount := retryCount r + 1, lastRetry := now\<rparr>)
                      (pendingMessages s)\<rparr>))
      | None \<Rightarrow> retry_loop now rest s)"

fun fail_loop :: "64 word list \<Rightarrow> ReliableMessaging \<Rightarrow> ReliableMessaging" where
  "fail_loop [] s = s"
| "fail_loop (msgID # rest) s = fail_loop rest (markMessageFailed msgID s)"

definition retryPendingMessages ::
  "int \<Rightarrow> int \<Rightarrow> int \<Rightarrow> ReliableMessaging \<Rightarrow> ReliableMessaging" where
  "retryPendingMessages now timeoutSeconds maxRetries s =
     (case scan_pending now timeoutSeconds maxRetries (pendingMessages s) ([], []) of
        (toRetry, toFail) \<Rightarrow> fail_loop toFail (retry_loop now toRetry s))"


text \<open>The test of the first loop of \<open>retryPendingMessages\<close>, as a predicate on a record.\<close>

definition retry_due :: "int \<Rightarrow> int \<Rightarrow> ReliableMessage \<Rightarrow> bool" where
  "retry_due now timeoutSeconds r \<longleftrightarrow>
     ackStatus r \<noteq> ACKNOWLEDGED \<and> timeoutSeconds \<le> now - lastRetry r"

text \<open>A table for the examples: message 5 is acknowledged, message 7 has been retried
  once, message 9 three times; all were last sent at second 100.\<close>

definition demo_message :: Message where
  "demo_message = \<lparr>msg_type = DATA_MESSAGE, senderID = 1, receiverID = 2, payload = [],
                    timestamp = 0\<rparr>"

definition demo_record :: "64 word \<Rightarrow> AckStatus \<Rightarrow> int \<Rightarrow> ReliableMessage" where
  "demo_record mid st n =
     \<lparr>messageID = mid, message = demo_message, destinationID = 2, ackStatus = st,
      retryCount = n, sendTime = 100, lastRetry = 100\<rparr>"

definition demo_reliable :: ReliableMessaging where
  "demo_reliable =
     \<lparr>pendingMessages = [(5, demo_record 5 ACKNOWLEDGED 0), (7, demo_record 7 PENDING 1),
                          (9, demo_record 9 PENDING 3)],
      sentMessages = 3, acknowledgedMessages = 1, failedMessages = 0,
      onMessageDelivered_set = True, onMessageFailed_set = True,
      delivered_calls = [], failed_calls = [], transport_log = []\<rparr>"

section \<open>The local node (Node.h, Node.cpp)\<close>

text \<open>\<open>MAX_PEERS\<close> of Common.h.\<close>

definition MAX_PEERS :: nat where
  "MAX_PEERS = 10"

definition NODE_TIMEOUT_SEC :: int where
  "NODE_TIMEOUT_SEC = 90"

text \<open>
  A \<open>Node\<close> object: its id, the two parallel vectors of the peer roster, and the single
  \<open>self_lastSeen\<close> time stamp the object owns.
\<close>

record Node =
  self_nodeID :: NodeID
  self_address :: NetworkAddress
  peerIDs :: "NodeID list"
  peerAddresses :: "NetworkAddress list"
  self_lastSeen :: int

definition addPeer :: "NodeID \<Rightarrow> NetworkAddress \<Rightarrow> Node \<Rightarrow> bool \<times> Node" where
  "addPeer peerID peerAddress n =
     (if peerID \<in> set (peerIDs n) then (False, n)
      else if length (peerIDs n) \<ge> MAX_PEERS then (False, n)
      else (True, n\<lparr>peerIDs := peerIDs n @ [peerID],
                     peerAddresses := peerAddresses n @ [peerAddress]\<rparr>))"

text \<open>\<open>std::find\<close> on a vector: the index of the first occurrence.\<close>

fun find_index_of :: "'a \<Rightarrow> 'a list \<Rightarrow> nat" where
  "find_index_of x [] = 0"
| "find_index_of x (y # ys) = (if x = y then 0 else Suc (find_index_of x ys))"

definition erase_at :: "nat \<Rightarrow> 'a list \<Rightarrow> 'a list" where
  "erase_at i xs = take i xs @ drop (Suc i) xs"

definition removePeer :: "NodeID \<Rightarrow> Node \<Rightarrow> bool \<times> Node" where
  "removePeer peerID n =
     (if peerID \<notin> set (peerIDs n) then (False, n)
      else let index = find_index_of peerID (peerIDs n)
           in (True, n\<lparr>peerIDs := erase_at index (peerIDs n),
                         peerAddresses := erase_at index (peerAddresses n)\<rparr>))"

definition hasPeer :: "NodeID \<Rightarrow> Node \<Rightarrow> bool" where
  "hasPeer peerID n \<longleftrightarrow> peerID \<in> set (peerIDs n)"

definition getPeerCount :: "Node \<Rightarrow> nat" where
  "getPeerCount n = length (peerIDs n)"

definition updateLastSeen :: "int \<Rightarrow> Node \<Rightarrow> Node" where
  "updateLastSeen now n = n\<lparr>self_lastSeen := now\<rparr>"

definition isAlive :: "int \<Rightarrow> int \<Rightarrow> Node \<Rightarrow> bool" where
  "isAlive now timeoutSeconds n \<longleftrightarrow> now - self_lastSeen n < timeoutSeconds"

section \<open>The topology engine (TopologyManager.h, TopologyManager.cpp)\<close>

subsection \<open>\<open>std::set\<close> as an ascending list\<close>

definition set_insert :: "'a::linorder \<Rightarrow> 'a list \<Rightarrow> 'a list" where
  "set_insert x s = (if x \<in> set s then s else insort x s)"

definition set_erase :: "'a \<Rightarrow> 'a list \<Rightarrow> 'a list" where
  "set_erase x s = filter (\<lambda>y. y \<noteq> x) s"

text \<open>\<open>m[k]\<close> followed by a change of the value: a missing key is first inserted with
  the default value \<open>d\<close>.\<close>

definition map_index_modify ::
  "'k::linorder \<Rightarrow> 'v \<Rightarrow> ('v \<Rightarrow> 'v) \<Rightarrow> ('k \<times> 'v) list \<Rightarrow> ('k \<times> 'v) list" where
  "map_index_modify k d f m =
     (case map_of m k of
        Some v \<Rightarrow> map_modify k f m
      | None \<Rightarrow> map_assign k (f d) m)"

record TopologyManager =
  nodeRegistry :: "(NodeID \<times> NetworkAddress) list"
  adjacencyList :: "(NodeID \<times> NodeID list) list"


definition removeNodeFromGraph :: "NodeID \<Rightarrow> TopologyManager \<Rightarrow> TopologyManager" where
  "removeNodeFromGraph nodeID t =
     t\<lparr>nodeRegistry := map_erase nodeID (nodeRegistry t),
       adjacencyList :=
         map (\<lambda>(k, s). (k, set_erase nodeID s)) (map_erase nodeID (adjacencyList t))\<rparr>"

definition removeNode :: "NodeID \<Rightarrow> TopologyManager \<Rightarrow> bool \<times> TopologyManager" where
  "removeNode nodeID t =
     (if map_of (nodeRegistry t) nodeID = None then (False, t)
      else (True, removeNodeFromGraph nodeID t))"

definition nodeExists :: "NodeID \<Rightarrow> TopologyManager \<Rightarrow> bool" where
  "nodeExists nodeID t \<longleftrightarrow> map_of (nodeRegistry t) nodeID \<noteq> None"

definition getNodeAddress :: "NodeID \<Rightarrow> TopologyManager \<Rightarrow> NetworkAddress" where
  "getNodeAddress nodeID t =
     (case map_of (nodeRegistry t) nodeID of
        Some a \<Rightarrow> a
      | None \<Rightarrow> \<lparr>host = [], port = 0\<rparr>)"

definition getNeighbors :: "NodeID \<Rightarrow> TopologyManager \<Rightarrow> NodeID list" where
  "getNeighbors nodeID t =
     (case map_of (adjacencyList t) nodeID of Some s \<Rightarrow> s | None \<Rightarrow> [])"

definition addEdge :: "NodeID \<Rightarrow> NodeID \<Rightarrow> TopologyManager \<Rightarrow> TopologyManager" where
  "addEdge from to t =
     (if from = to then t
      else t\<lparr>adjacencyList :=
               map_index_modify to [] (set_insert from)
                 (map_index_modify from [] (set_insert to) (adjacencyList t))\<rparr>)"


text \<open>
  \<open>getAllNodeIDs\<close>, \<open>validateTopology\<close>, \<open>isTopologyConnected\<close> and \<open>repairTopology\<close> each
  take \<open>topologyMutex_\<close> on entry, and \<open>repairTopology\<close> calls the other three while it
  holds it. Their first argument is the state of \<open>topologyMutex_\<close> at the call.
\<close>

definition getAllNodeIDs :: "bool \<Rightarrow> TopologyManager \<Rightarrow> error + NodeID list" where
  "getAllNodeIDs locked t = lock_guard locked (Inr (map fst (nodeRegistry t)))"

text \<open>
  \<open>validateTopology\<close> walks \<open>adjacencyList_\<close> with a range-for and, for a key that is not
  registered, erases that very entry from the map it is walking; the loop then advances
  the iterator of the erased entry. With no such key nothing is erased and the map is
  left as it is.
\<close>

definition validateTopology :: "bool \<Rightarrow> TopologyManager \<Rightarrow> error + TopologyManager" where
  "validateTopology locked t =
     lock_guard locked
       (if list_ex (\<lambda>(k, s). map_of (nodeRegistry t) k = None) (adjacencyList t)
        then Inl UndefinedBehaviour
        else Inr t)"

text \<open>
  \<open>hasPathDFS\<close> is recursive in the source, with the visited set passed by reference.
  The model bounds the recursion depth by a fuel argument: \<open>None\<close> means the fuel ran
  out. The result is the returned flag and the visited set.
\<close>

function hasPathDFS ::
    "nat \<Rightarrow> (NodeID \<times> NodeID list) list \<Rightarrow> NodeID \<Rightarrow> NodeID \<Rightarrow> NodeID list
       \<Rightarrow> (bool \<times> NodeID list) option"
  and dfs_neighbors ::
    "nat \<Rightarrow> (NodeID \<times> NodeID list) list \<Rightarrow> NodeID \<Rightarrow> NodeID list \<Rightarrow> NodeID list
       \<Rightarrow> (bool \<times> NodeID list) option" where
  "hasPathDFS 0 adj from to visited = None"
| "hasPathDFS (Suc fuel) adj from to visited =
     (let visited' = set_insert from visited in
      if from = to then Some (True, visited')
      else (case map_of adj from of
              Some nbrs \<Rightarrow> dfs_neighbors fuel adj to nbrs visited'
            | None \<Rightarrow> Some (False, visited')))"
| "dfs_neighbors fuel adj to [] visited = Some (False, visited)"
| "dfs_neighbors fuel adj to (neighbor # rest) visited =
     (if neighbor \<notin> set visited then
        (case hasPathDFS fuel adj neighbor to visited of
           None \<Rightarrow> None
         | Some (True, visited') \<Rightarrow> Some (True, visited')
         | Some (False, visited') \<Rightarrow> dfs_neighbors fuel adj to rest visited')
      else dfs_neighbors fuel adj to rest visited)"
  by pat_completeness auto
termination
  by (relation "measures
        [\<lambda>x. case x of Inl (fuel, adj, from, to, visited) \<Rightarrow> 2 * fuel
                   | Inr (fuel, adj, to, nbrs, visited) \<Rightarrow> 2 * fuel + 1,
         \<lambda>x. case x of Inl (fuel, adj, from, to, visited) \<Rightarrow> 0
                   | Inr (fuel, adj, to, nbrs, visited) \<Rightarrow> length nbrs]")
     auto

text \<open>
  \<open>isTopologyConnected\<close> starts \<open>hasPathDFS\<close> with \<open>from = to = startNode\<close>, a call
  that returns at depth one, so any positive fuel is enough (lemma
  \<open>hasPathDFS_same_node\<close>); the \<open>None\<close> branch below is never taken.
\<close>

definition isTopologyConnected :: "bool \<Rightarrow> TopologyManager \<Rightarrow> error + bool" where
  "isTopologyConnected locked t =
     lock_guard locked
       (Inr (if nodeRegistry t = [] then True
             else if length (nodeRegistry t) = 1 then True
             else (let startNode = fst (hd (nodeRegistry t)) in
                   case hasPathDFS (Suc (length (adjacencyList t))) (adjacencyList t)
                          startNode startNode [] of
                     Some (found, visited) \<Rightarrow> length visited = length (nodeRegistry t)
                   | None \<Rightarrow> False)))"

text \<open>\<open>checkNetworkIntegrity\<close> takes no lock of its own; it calls the two functions in
  the state of the mutex it was called in.\<close>

definition checkNetworkIntegrity :: "bool \<Rightarrow> TopologyManager \<Rightarrow> error + bool \<times> TopologyManager" where
  "checkNetworkIntegrity locked t =
     then_do (validateTopology locked t) (\<lambda>t1.
     then_do (isTopologyConnected locked t1) (\<lambda>connected.
     Inr (connected, t1)))"

text \<open>
  \<open>repairTopology\<close> locks \<open>topologyMutex_\<close> and then calls \<open>validateTopology\<close>,
  \<open>isTopologyConnected\<close> and \<open>getAllNodeIDs\<close>, which lock it again; the ring of edges
  (\<open>addEdge\<close> from each registered id to the next) comes after those calls.
\<close>

definition repairTopology :: "bool \<Rightarrow> TopologyManager \<Rightarrow> error + TopologyManager" where
  "repairTopology locked t =
     lock_guard locked
       (then_do (validateTopology True t) (\<lambda>t1.
        then_do (isTopologyConnected True t1) (\<lambda>connected.
        if \<not> connected then
          then_do (getAllNodeIDs True t1) (\<lambda>nodeIDs.
          Inr (if length nodeIDs > 1 then
                 fold (\<lambda>i. addEdge (nodeIDs ! i) (nodeIDs ! ((i + 1) mod length nodeIDs)))
                   [0..<length nodeIDs] t1
               else t1))
        else Inr t1)))"

subsection \<open>\<open>findPath\<close>: breadth-first search\<close>

text \<open>
  The loop state of \<open>findPath\<close> is the queue, the visited set and the parent map.
  \<open>visit_neighbors\<close> is the inner \<open>for\<close> over the adjacency set of \<open>current\<close>.
\<close>

fun visit_neighbors ::
  "NodeID \<Rightarrow> NodeID list \<Rightarrow> NodeID list \<times> NodeID list \<times> (NodeID \<times> NodeID) list
     \<Rightarrow> NodeID list \<times> NodeID list \<times> (NodeID \<times> NodeID) list" where
  "visit_neighbors current [] st = st"
| "visit_neighbors current (neighbor # rest) (queue, visited, parent) =
     (if neighbor \<notin> set visited then
        visit_neighbors current rest
          (queue @ [neighbor], set_insert neighbor visited, map_assign neighbor current parent)
      else visit_neighbors current rest (queue, visited, parent))"

text \<open>
  The path is rebuilt by walking the parent map back from \<open>to\<close>. \<open>parent[node]\<close> inserts
  the default id 0 for a missing key. For an arbitrary parent map the walk need not end:
  \<open>None\<close> is the walk that does not return.
\<close>

partial_function (option) reconstruct_path ::
  "(NodeID \<times> NodeID) list \<Rightarrow> NodeID \<Rightarrow> NodeID \<Rightarrow> NodeID list \<Rightarrow> NodeID list option" where
  "reconstruct_path parent from node path =
     (if node \<noteq> from then
        (case map_of parent node of
           Some p \<Rightarrow> reconstruct_path parent from p (path @ [node])
         | None \<Rightarrow> reconstruct_path (map_assign node 0 parent) from 0 (path @ [node]))
      else Some (rev (path @ [from])))"

definition adj_nodes :: "(NodeID \<times> NodeID list) list \<Rightarrow> NodeID set" where
  "adj_nodes adj = (\<Union>p \<in> set adj. set (snd p))"

lemma set_set_insert: "set (set_insert x s) = insert x (set s)"
  by (auto simp: set_insert_def set_insort_key)

lemma visit_neighbors_result:
  "visit_neighbors c nbrs (q, v, p) = (q', v', p') \<Longrightarrow>
   \<exists>ns. q' = q @ ns \<and> set v' = set v \<union> set ns \<and> distinct ns \<and> set ns \<inter> set v = {}
      \<and> set ns \<subseteq> set nbrs"
proof (induction nbrs arbitrary: q v p)
  case Nil
  then show ?case by simp
next
  case (Cons n nbrs)
  show ?case
  proof (cases "n \<in> set v")
    case True
    with Cons.prems have "visit_neighbors c nbrs (q, v, p) = (q', v', p')" by simp
    from Cons.IH [OF this] show ?thesis by auto
  next
    case False
    with Cons.prems have
      "visit_neighbors c nbrs (q @ [n], set_insert n v, map_assign n c p) = (q', v', p')"
      by simp
    from Cons.IH [OF this] obtain ns where ns: "q' = (q @ [n]) @ ns"
      "set v' = set (set_insert n v) \<union> set ns" "distinct ns"
      "set ns \<inter> set (set_insert n v) = {}" "set ns \<subseteq> set nbrs"
      by blast
    with False have "q' = q @ (n # ns) \<and> set v' = set v \<union> set (n # ns) \<and> distinct (n # ns)
       \<and> set (n # ns) \<inter> set v = {} \<and> set (n # ns) \<subseteq> set (n # nbrs)"
      by (auto simp: set_set_insert)
    then show ?thesis by blast
  qed
qed

text \<open>
  The \<open>while (!queue.empty())\<close> loop. It ends because every round takes one node off
  the queue and every node is put on the queue at most once.
\<close>

function bfs_loop ::
  "(NodeID \<times> NodeID list) list \<Rightarrow> NodeID \<Rightarrow> NodeID \<Rightarrow> NodeID list \<Rightarrow> NodeID list
     \<Rightarrow> (NodeID \<times> NodeID) list \<Rightarrow> NodeID list option" where
  "bfs_loop adj from to [] visited parent = Some []"
| "bfs_loop adj from to (current # queue) visited parent =
     (if current = to then reconstruct_path parent from to []
      else (case map_of adj current of
              Some nbrs \<Rightarrow>
                (case visit_neighbors current nbrs (queue, visited, parent) of
                   (queue', visited', parent') \<Rightarrow> bfs_loop adj from to queue' visited' parent')
            | None \<Rightarrow> bfs_loop adj from to queue visited parent))"
  by pat_completeness auto
termination
proof (relation "measure (\<lambda>(adj, from, to, queue, visited, parent).
                    2 * card (adj_nodes adj - set visited) + length queue)", goal_cases)
  case 1
  then show ?case by simp
next
  case 2
  then show ?case by simp
next
  case (3 adj "from" to current queue visited parent nbrs queue' y visited' parent')
  then have "visit_neighbors current nbrs (queue, visited, parent) = (queue', visited', parent')"
    by simp
  from visit_neighbors_result [OF this] obtain ns where ns: "queue' = queue @ ns"
    "set visited' = set visited \<union> set ns" "distinct ns" "set ns \<inter> set visited = {}"
    "set ns \<subseteq> set nbrs"
    by blast
  from 3 have "(current, nbrs) \<in> set adj" by (auto dest: map_of_SomeD)
  then have "set nbrs \<subseteq> adj_nodes adj" by (force simp: adj_nodes_def)
  with ns have sub: "set ns \<subseteq> adj_nodes adj - set visited" by auto
  have fin: "finite (adj_nodes adj - set visited)" by (simp add: adj_nodes_def)
  have "adj_nodes adj - set visited' = (adj_nodes adj - set visited) - set ns"
    using ns by auto
  then have "card (adj_nodes adj - set visited') = card (adj_nodes adj - set visited) - card (set ns)"
    using sub fin by (simp add: card_Diff_subset)
  moreover have "card (set ns) \<le> card (adj_nodes adj - set visited)"
    using sub fin by (rule card_mono [rotated])
  moreover have "card (set ns) = length ns" using ns by (simp add: distinct_card)
  ultimately show ?case using ns by simp
qed

text \<open>\<open>findPath\<close> returns \<open>Some\<close> of the vector the source returns.\<close>

definition findPath :: "NodeID \<Rightarrow> NodeID \<Rightarrow> TopologyManager \<Rightarrow> NodeID list option" where
  "findPath from to t =
     (if from = to then Some [from]
      else bfs_loop (adjacencyList t) from to [from] (set_insert from []) (map_assign from from []))"

text \<open>
  The adjacency relation and its paths: \<open>edge adj u v\<close> when \<open>v\<close> is in the adjacency
  set stored under \<open>u\<close>; a path from \<open>a\<close> to \<open>b\<close> is a non-empty list of nodes from \<open>a\<close>
  to \<open>b\<close> in which each node is followed by one of its neighbours. \<open>hops\<close> is the least
  number of edges of such a path.
\<close>

definition edge :: "(NodeID \<times> NodeID list) list \<Rightarrow> NodeID \<Rightarrow> NodeID \<Rightarrow> bool" where
  "edge adj u v \<longleftrightarrow> (case map_of adj u of Some s \<Rightarrow> v \<in> set s | None \<Rightarrow> False)"

definition path_between ::
  "(NodeID \<times> NodeID list) list \<Rightarrow> NodeID \<Rightarrow> NodeID \<Rightarrow> NodeID list \<Rightarrow> bool" where
  "path_between adj a b p \<longleftrightarrow> p \<noteq> [] \<and> hd p = a \<and> last p = b \<and> successively (edge adj) p"

definition reachable :: "(NodeID \<times> NodeID list) list \<Rightarrow> NodeID \<Rightarrow> NodeID \<Rightarrow> bool" where
  "reachable adj a b \<longleftrightarrow> (\<exists>p. path_between adj a b p)"

definition hops :: "(NodeID \<times> NodeID list) list \<Rightarrow> NodeID \<Rightarrow> NodeID \<Rightarrow> nat" where
  "hops adj a b = (LEAST n. \<exists>p. path_between adj a b p \<and> length p = Suc n)"

text \<open>The loop invariant of the search, for the queue \<open>q\<close>, the visited set \<open>V\<close> and
  the parent map \<open>P\<close>.\<close>

definition bfs_inv ::
  "(NodeID \<times> NodeID list) list \<Rightarrow> NodeID \<Rightarrow> NodeID \<Rightarrow> NodeID list \<Rightarrow> NodeID set
     \<Rightarrow> (NodeID \<Rightarrow> NodeID option) \<Rightarrow> bool" where
  "bfs_inv adj from to q V P \<longleftrightarrow>
     from \<in> V \<and> set q \<subseteq> V \<and> (to \<in> V \<longrightarrow> to \<in> set q) \<and>
     (\<forall>v\<in>V. reachable adj from v) \<and>
     (\<forall>v\<in>V. v \<noteq> from \<longrightarrow>
        (\<exists>u\<in>V. P v = Some u \<and> edge adj u v \<and> hops adj from v = Suc (hops adj from u))) \<and>
     sorted (map (hops adj from) q) \<and>
     (q \<noteq> [] \<longrightarrow> hops adj from (last q) \<le> Suc (hops adj from (hd q))) \<and>
     (\<forall>w\<in>V. w \<notin> set q \<longrightarrow> (\<forall>x. edge adj w x \<longrightarrow> x \<in> V))"

text \<open>An example topology: a triangle 1-2-3 and, apart from it, a chain 4-5-6-7.\<close>

definition demo_address :: NetworkAddress where
  "demo_address = \<lparr>host = ''127.0.0.1'', port = 8888\<rparr>"

definition demo_topology :: TopologyManager where
  "demo_topology =
     \<lparr>nodeRegistry = map (\<lambda>k. (k, demo_address)) [1, 2, 3, 4, 5, 6, 7],
      adjacencyList = [(1, [2, 3]), (2, [1, 3]), (3, [1, 2]),
                       (4, [5]), (5, [4, 6]), (6, [5, 7]), (7, [6])]\<rparr>"

section \<open>The network manager (NetworkManager.h, NetworkManager.cpp)\<close>

text \<open>A \<open>Poco::Net::StreamSocket\<close> is seen through one question: whether \<open>sendBytes\<close> on it
  succeeds or throws.\<close>

datatype StreamSocket = Writable | Broken

text \<open>
  The part of a \<open>NetworkManager\<close> that connecting and sending use: \<open>activeConnections_\<close>
  and \<open>sentMessageCount_\<close> (a \<open>size_t\<close>). \<open>connect_succeeds\<close> is the environment: whether
  a TCP connection to an address can be opened. The three lists are not members of the
  class: they record, in order, the calls of \<open>connectToPeer\<close>, \<open>disconnectFromPeer\<close> and
  \<open>sendMessageToPeer\<close>, so that what a caller hands to the network manager can be
  observed.
\<close>

record NetworkManager =
  activeConnections :: "(NodeID \<times> StreamSocket) list"
  sentMessageCount :: "64 word"
  connect_succeeds :: "NetworkAddress \<Rightarrow> bool"
  connect_requests :: "NetworkAddress list"
  disconnect_requests :: "NodeID list"
  send_requests :: "(NodeID \<times> Message) list"

text \<open>
  \<open>connectToPeer\<close> opens a socket to the address and returns whether that succeeded. The
  socket is a local variable: it is not entered into \<open>activeConnections_\<close> (the source
  notes that the peer id is not known at this point), and no other function of the
  repository enters one.
\<close>

definition connectToPeer :: "NetworkAddress \<Rightarrow> NetworkManager \<Rightarrow> bool \<times> NetworkManager" where
  "connectToPeer peerAddress nm =
     (connect_succeeds nm peerAddress,
      nm\<lparr>connect_requests := connect_requests nm @ [peerAddress]\<rparr>)"

definition disconnectFromPeer :: "NodeID \<Rightarrow> NetworkManager \<Rightarrow> bool \<times> NetworkManager" where
  "disconnectFromPeer peerID nm =
     (let nm1 = nm\<lparr>disconnect_requests := disconnect_requests nm @ [peerID]\<rparr> in
      case map_of (activeConnections nm1) peerID of
        Some socket \<Rightarrow> (True, nm1\<lparr>activeConnections := map_erase peerID (activeConnections nm1)\<rparr>)
      | None \<Rightarrow> (False, nm1))"

text \<open>
  \<open>sendMessageToPeer\<close> returns false for a peer that has no entry in
  \<open>activeConnections_\<close>; otherwise it writes the header and the payload to the socket,
  counts the message and returns true, or returns false when the socket throws.
\<close>

definition sendMessageToPeer :: "NodeID \<Rightarrow> Message \<Rightarrow> NetworkManager \<Rightarrow> bool \<times> NetworkManager" where
  "sendMessageToPeer peerID msg nm =
     (let nm1 = nm\<lparr>send_requests := send_requests nm @ [(peerID, msg)]\<rparr> in
      case map_of (activeConnections nm1) peerID of
        None \<Rightarrow> (False, nm1)
      | Some Broken \<Rightarrow> (False, nm1)
      | Some Writable \<Rightarrow> (True, nm1\<lparr>sentMessageCount := sentMessageCount nm1 + 1\<rparr>))"

definition isConnectedTo :: "NodeID \<Rightarrow> NetworkManager \<Rightarrow> bool" where
  "isConnectedTo peerID nm \<longleftrightarrow> map_of (activeConnections nm) peerID \<noteq> None"

text \<open>The network manager as its constructor leaves it, in a network where every
  address accepts a connection.\<close>

definition new_network :: NetworkManager where
  "new_network =
     \<lparr>activeConnections = [], sentMessageCount = 0, connect_succeeds = (\<lambda>a. True),
      connect_requests = [], disconnect_requests = [], send_requests = []\<rparr>"

text \<open>
  The states of a network manager that the program can produce: the one its constructor
  leaves, in any environment, and those that \<open>connectToPeer\<close>, \<open>disconnectFromPeer\<close>
  and \<open>sendMessageToPeer\<close> make of such a state.
\<close>

inductive constructed :: "NetworkManager \<Rightarrow> bool" where
  "constructed \<lparr>activeConnections = [], sentMessageCount = 0, connect_succeeds = environment,
                 connect_requests = [], disconnect_requests = [], send_requests = []\<rparr>"
| "constructed nm \<Longrightarrow> constructed (snd (connectToPeer peerAddress nm))"
| "constructed nm \<Longrightarrow> constructed (snd (disconnectFromPeer peerID nm))"
| "constructed nm \<Longrightarrow> constructed (snd (sendMessageToPeer peerID msg nm))"

section \<open>The message router (MessageRouter.h, MessageRouter.cpp)\<close>

text \<open>
  A \<open>MessageRouter\<close> with the node, the topology and the network manager it points to.
  The counters are \<open>size_t\<close> and wrap at \<open>2 ^ 64\<close>.
\<close>

record MessageRouter =
  router_node :: Node
  router_topology :: TopologyManager
  router_network :: NetworkManager
  routedMessageCount :: "64 word"
  forwardedMessageCount :: "64 word"
  totalHopCount :: "64 word"

text \<open>\<open>networkManager_->sendMessageToPeer(peerID, message)\<close>, called by the router.\<close>

definition router_send :: "NodeID \<Rightarrow> Message \<Rightarrow> MessageRouter \<Rightarrow> bool \<times> MessageRouter" where
  "router_send peerID msg r =
     (case sendMessageToPeer peerID msg (router_network r) of
        (sent, nm) \<Rightarrow> (sent, r\<lparr>router_network := nm\<rparr>))"

definition findRoute :: "NodeID \<Rightarrow> MessageRouter \<Rightarrow> NodeID list option" where
  "findRoute targetID r =
     (if hasPeer targetID (router_node r) then Some [self_nodeID (router_node r), targetID]
      else findPath (self_nodeID (router_node r)) targetID (router_topology r))"

text \<open>\<open>getHopCount\<close> returns an \<open>int\<close>; a route is far shorter than \<open>2 ^ 31\<close> nodes.\<close>

definition getHopCount :: "NodeID \<Rightarrow> MessageRouter \<Rightarrow> int option" where
  "getHopCount targetID r =
     (case findRoute targetID r of
        None \<Rightarrow> None
      | Some route \<Rightarrow> Some (if route = [] then - 1 else int (length route) - 1))"

definition isReachable :: "NodeID \<Rightarrow> MessageRouter \<Rightarrow> bool option" where
  "isReachable targetID r =
     (case findRoute targetID r of
        None \<Rightarrow> None
      | Some route \<Rightarrow> Some (route \<noteq> []))"

definition routeMessageMultiHop ::
  "NodeID \<Rightarrow> Message \<Rightarrow> MessageRouter \<Rightarrow> (bool \<times> MessageRouter) option" where
  "routeMessageMultiHop targetID msg r =
     (case findRoute targetID r of
        None \<Rightarrow> None
      | Some route \<Rightarrow>
          Some (if route = [] then (False, r)
                else if length route = 1 then router_send targetID msg r
                else (let nextHop = route ! 1;
                          r' = r\<lparr>totalHopCount := totalHopCount r + of_nat (length route - 1)\<rparr>
                      in router_send nextHop msg r')))"

definition routeMessageDirect ::
  "NodeID \<Rightarrow> Message \<Rightarrow> MessageRouter \<Rightarrow> (bool \<times> MessageRouter) option" where
  "routeMessageDirect targetID msg r =
     (if hasPeer targetID (router_node r) then Some (router_send targetID msg r)
      else routeMessageMultiHop targetID msg r)"

text \<open>Example routers over the example topology, seen from node 1 and from node 4,
  with a network manager fresh from its constructor.\<close>

definition demo_node :: "NodeID \<Rightarrow> NodeID list \<Rightarrow> Node" where
  "demo_node self peers =
     \<lparr>self_nodeID = self, self_address = demo_address, peerIDs = peers,
      peerAddresses = map (\<lambda>p. demo_address) peers, self_lastSeen = 0\<rparr>"

definition demo_router :: "NodeID \<Rightarrow> NodeID list \<Rightarrow> MessageRouter" where
  "demo_router self peers =
     \<lparr>router_node = demo_node self peers, router_topology = demo_topology,
      router_network = new_network,
      routedMessageCount = 0, forwardedMessageCount = 0, totalHopCount = 0\<rparr>"

subsection \<open>Symmetry of the topology graph\<close>


section \<open>Membership and failure detection (DynamicNodeManager.h, DynamicNodeManager.cpp)\<close>

datatype NodeState = JOINING | ACTIVE | LEAVING | NODE_FAILED | UNKNOWN

text \<open>
  The failure detector compares \<open>duration_cast<seconds>(now - lastSeen).count()\<close> with the
  timeout, and the cast truncates towards zero. The time points of a membership record
  are therefore kept in ticks of \<open>system_clock\<close> (nanoseconds) rather than in seconds.
\<close>

definition ticks_per_second :: int where
  "ticks_per_second = 1000000000"

definition duration_cast_seconds :: "int \<Rightarrow> int" where
  "duration_cast_seconds d =
     (if 0 \<le> d then d div ticks_per_second else - ((- d) div ticks_per_second))"

record NodeInfo =
  info_nodeID :: NodeID
  info_address :: NetworkAddress
  state :: NodeState
  lastSeen :: int
  joinTime :: int
  failureCount :: int

text \<open>
  A \<open>DynamicNodeManager\<close> with the node, the topology manager and the network manager it
  points to. \<open>dnm_nodeRegistry\<close> is its own \<open>nodeRegistry_\<close>, the table of membership
  records. For each callback, a flag says whether one is registered and a list (or a
  count) records the calls.

  Every function below that takes \<open>nodesMutex_\<close> has the state of that mutex at the call
  as its first argument. \<open>topologyMutex_\<close> is free whenever the manager calls into the
  topology manager.
\<close>

record DynamicNodeManager =
  dnm_node :: Node
  dnm_topology :: TopologyManager
  dnm_network :: NetworkManager
  dnm_nodeRegistry :: "(NodeID \<times> NodeInfo) list"
  onNodeFailed_set :: bool
  onNetworkRepaired_set :: bool
  nodeFailed_calls :: "NodeID list"
  networkRepaired_calls :: nat

definition incrementFailureCount ::
  "bool \<Rightarrow> NodeID \<Rightarrow> DynamicNodeManager \<Rightarrow> error + DynamicNodeManager" where
  "incrementFailureCount locked nodeID s =
     lock_guard locked
       (Inr (s\<lparr>dnm_nodeRegistry :=
                 map_modify nodeID (\<lambda>i. i\<lparr>failureCount := failureCount i + 1\<rparr>)
                   (dnm_nodeRegistry s)\<rparr>))"

definition resetFailureCount ::
  "bool \<Rightarrow> NodeID \<Rightarrow> DynamicNodeManager \<Rightarrow> error + DynamicNodeManager" where
  "resetFailureCount locked nodeID s =
     lock_guard locked
       (Inr (s\<lparr>dnm_nodeRegistry :=
                 map_modify nodeID (\<lambda>i. i\<lparr>failureCount := 0\<rparr>) (dnm_nodeRegistry s)\<rparr>))"

definition shouldRemoveNode :: "bool \<Rightarrow> NodeID \<Rightarrow> DynamicNodeManager \<Rightarrow> error + bool" where
  "shouldRemoveNode locked nodeID s =
     lock_guard locked
       (Inr (case map_of (dnm_nodeRegistry s) nodeID of
               Some i \<Rightarrow> failureCount i \<ge> 3
             | None \<Rightarrow> False))"

text \<open>\<open>updateNodeLastSeen\<close> is private and has no caller in the repository. It stamps the
  record and then calls \<open>resetFailureCount\<close> with \<open>nodesMutex_\<close> held.\<close>

definition updateNodeLastSeen ::
  "bool \<Rightarrow> int \<Rightarrow> NodeID \<Rightarrow> DynamicNodeManager \<Rightarrow> error + DynamicNodeManager" where
  "updateNodeLastSeen locked now nodeID s =
     lock_guard locked
       (case map_of (dnm_nodeRegistry s) nodeID of
          Some i \<Rightarrow>
            resetFailureCount True nodeID
              (s\<lparr>dnm_nodeRegistry :=
                   map_modify nodeID (\<lambda>i. i\<lparr>lastSeen := now\<rparr>) (dnm_nodeRegistry s)\<rparr>)
        | None \<Rightarrow> Inr s)"

definition findReplacementConnections ::
  "NodeID \<Rightarrow> DynamicNodeManager \<Rightarrow> error + NodeID list" where
  "findReplacementConnections removedNodeID s =
     then_do (getAllNodeIDs False (dnm_topology s)) (\<lambda>allNodes.
     Inr (filter (\<lambda>k. \<not> (k = self_nodeID (dnm_node s) \<or> k = removedNodeID)
                      \<and> \<not> hasPeer k (dnm_node s) \<and> getPeerCount (dnm_node s) < MAX_PEERS)
            allNodes))"

text \<open>The loop of \<open>establishReplacementConnections\<close>, with its \<open>break\<close> when the roster
  is full; the third argument is the local \<open>success\<close>.\<close>

fun establish_loop :: "NodeID list \<Rightarrow> DynamicNodeManager \<Rightarrow> bool \<Rightarrow> bool \<times> DynamicNodeManager" where
  "establish_loop [] s success = (success, s)"
| "establish_loop (k # rest) s success =
     (if getPeerCount (dnm_node s) \<ge> MAX_PEERS then (success, s)
      else (let addr = getNodeAddress k (dnm_topology s) in
            if port addr \<noteq> 0 then
              (let added = addPeer k addr (dnm_node s) in
               if fst added then
                 (let connected = connectToPeer addr (dnm_network s) in
                  establish_loop rest
                    (s\<lparr>dnm_node := snd added, dnm_network := snd connected\<rparr>)
                    (if fst connected then True else success))
               else establish_loop rest (s\<lparr>dnm_node := snd added\<rparr>) success)
            else establish_loop rest s success))"

definition establishReplacementConnections ::
  "NodeID list \<Rightarrow> DynamicNodeManager \<Rightarrow> bool \<times> DynamicNodeManager" where
  "establishReplacementConnections replacements s = establish_loop replacements s False"

definition repairNetworkAfterNodeRemoval ::
  "NodeID \<Rightarrow> DynamicNodeManager \<Rightarrow> error + bool \<times> DynamicNodeManager" where
  "repairNetworkAfterNodeRemoval removedNodeID s =
     then_do (isTopologyConnected False (dnm_topology s)) (\<lambda>connected.
     then_do (if \<not> connected
              then then_do (repairTopology False (dnm_topology s))
                     (\<lambda>t. Inr (s\<lparr>dnm_topology := t\<rparr>))
              else Inr s) (\<lambda>s1.
     then_do (findReplacementConnections removedNodeID s1) (\<lambda>replacements.
     let s2 = (if replacements \<noteq> []
               then snd (establishReplacementConnections replacements s1) else s1) in
     then_do (checkNetworkIntegrity False (dnm_topology s2)) (\<lambda>checked.
     let integrityOK = fst checked;
         s3 = s2\<lparr>dnm_topology := snd checked\<rparr>;
         s4 = (if integrityOK \<and> onNetworkRepaired_set s3
               then s3\<lparr>networkRepaired_calls := networkRepaired_calls s3 + 1\<rparr> else s3)
     in Inr (integrityOK, s4)))))"

text \<open>\<open>removeNodeForced\<close> holds \<open>nodesMutex_\<close> from its first line to its return, the
  call of \<open>repairNetworkAfterNodeRemoval\<close> included.\<close>

definition removeNodeForced ::
  "bool \<Rightarrow> NodeID \<Rightarrow> DynamicNodeManager \<Rightarrow> error + bool \<times> DynamicNodeManager" where
  "removeNodeForced locked nodeID s =
     lock_guard locked
       (case map_of (dnm_nodeRegistry s) nodeID of
          None \<Rightarrow> Inr (False, s)
        | Some i \<Rightarrow>
            (let s1 = s\<lparr>dnm_nodeRegistry :=
                         map_modify nodeID (\<lambda>i. i\<lparr>state := NODE_FAILED\<rparr>) (dnm_nodeRegistry s)\<rparr>;
                 s2 = s1\<lparr>dnm_node := snd (removePeer nodeID (dnm_node s1))\<rparr>;
                 s3 = s2\<lparr>dnm_network := snd (disconnectFromPeer nodeID (dnm_network s2))\<rparr>;
                 s4 = s3\<lparr>dnm_topology := snd (removeNode nodeID (dnm_topology s3))\<rparr>;
                 s5 = s4\<lparr>dnm_nodeRegistry := map_erase nodeID (dnm_nodeRegistry s4)\<rparr>;
                 s6 = (if onNodeFailed_set s5
                       then s5\<lparr>nodeFailed_calls := nodeFailed_calls s5 @ [nodeID]\<rparr> else s5)
             in then_do (repairNetworkAfterNodeRemoval nodeID s6)
                  (\<lambda>repaired. Inr (True, snd repaired))))"

text \<open>
  The loop of \<open>detectFailedNodes\<close> over the records, in key order, run inside the block
  that holds \<open>nodesMutex_\<close>: for a record in state \<open>ACTIVE\<close> it calls
  \<open>incrementFailureCount\<close> and \<open>shouldRemoveNode\<close>, or \<open>resetFailureCount\<close>, which look the
  record up by its key and lock \<open>nodesMutex_\<close> themselves. The last argument is the
  manager and the local \<open>failedNodes\<close>.
\<close>

fun sweep ::
  "int \<Rightarrow> int \<Rightarrow> NodeID list \<Rightarrow> DynamicNodeManager \<times> NodeID list
     \<Rightarrow> error + DynamicNodeManager \<times> NodeID list" where
  "sweep now timeoutSeconds [] acc = Inr acc"
| "sweep now timeoutSeconds (k # rest) (s, failedNodes) =
     (case map_of (dnm_nodeRegistry s) k of
        None \<Rightarrow> sweep now timeoutSeconds rest (s, failedNodes)
      | Some info \<Rightarrow>
          if state info \<noteq> ACTIVE then sweep now timeoutSeconds rest (s, failedNodes)
          else if duration_cast_seconds (now - lastSeen info) > timeoutSeconds then
            (case incrementFailureCount True k s of
               Inl e \<Rightarrow> Inl e
             | Inr s1 \<Rightarrow>
                 (case shouldRemoveNode True k s1 of
                    Inl e \<Rightarrow> Inl e
                  | Inr remove \<Rightarrow>
                      sweep now timeoutSeconds rest
                        (s1, if remove then failedNodes @ [k] else failedNodes)))
          else
            (case resetFailureCount True k s of
               Inl e \<Rightarrow> Inl e
             | Inr s1 \<Rightarrow> sweep now timeoutSeconds rest (s1, failedNodes)))"

text \<open>The second loop of \<open>detectFailedNodes\<close>, after the block: \<open>nodesMutex_\<close> has been
  released, and each failed node is removed with \<open>removeNodeForced\<close>.\<close>

fun remove_failed :: "NodeID list \<Rightarrow> DynamicNodeManager \<Rightarrow> error + DynamicNodeManager" where
  "remove_failed [] s = Inr s"
| "remove_failed (k # rest) s =
     (case removeNodeForced False k s of
        Inl e \<Rightarrow> Inl e
      | Inr removed \<Rightarrow> remove_failed rest (snd removed))"

definition detectFailedNodes ::
  "bool \<Rightarrow> int \<Rightarrow> int \<Rightarrow> DynamicNodeManager \<Rightarrow> error + DynamicNodeManager" where
  "detectFailedNodes locked now timeoutSeconds s =
     then_do (lock_guard locked
                (sweep now timeoutSeconds (map fst (dnm_nodeRegistry s)) (s, [])))
       (\<lambda>swept. remove_failed (snd swept) (fst swept))"

text \<open>
  An example: node 1 knows the peers 2 and 3. Both membership records are active; peer 2
  was last seen at second 0 and peer 3 at second 95. A second example holds one record,
  of a peer that is leaving.
\<close>

definition demo_info :: "NodeID \<Rightarrow> NodeState \<Rightarrow> int \<Rightarrow> NodeInfo" where
  "demo_info k st seen =
     \<lparr>info_nodeID = k, info_address = demo_address, state = st,
      lastSeen = seen * ticks_per_second, joinTime = 0, failureCount = 0\<rparr>"

definition demo_manager :: "(NodeID \<times> NodeInfo) list \<Rightarrow> DynamicNodeManager" where
  "demo_manager records =
     \<lparr>dnm_node = demo_node 1 [2, 3],
      dnm_topology = \<lparr>nodeRegistry = map (\<lambda>k. (k, demo_address)) [1, 2, 3],
                      adjacencyList = [(1, []), (2, []), (3, [])]\<rparr>,
      dnm_network = new_network,
      dnm_nodeRegistry = records,
      onNodeFailed_set = True, onNetworkRepaired_set = True,
      nodeFailed_calls = [], networkRepaired_calls = 0\<rparr>"

section \<open>The message handler (MessageHandler.h, MessageHandler.cpp)\<close>

text \<open>
  A \<open>MessageHandler\<close> with the node and the network manager it points to. \<open>now_ms\<close> is
  the reading of \<open>getCurrentTimestamp\<close>.
\<close>

record MessageHandler =
  handler_node :: Node
  handler_network :: NetworkManager

definition createHeartbeat :: "64 word \<Rightarrow> NodeID \<Rightarrow> MessageHandler \<Rightarrow> Message" where
  "createHeartbeat now_ms targetNodeID h =
     \<lparr>msg_type = HEARTBEAT, senderID = self_nodeID (handler_node h), receiverID = targetNodeID,
      payload = [], timestamp = now_ms\<rparr>"

text \<open>\<open>handleHeartbeat\<close> calls \<open>node_->updateLastSeen()\<close>, which stamps the \<open>lastSeen_\<close> of
  the local \<open>Node\<close> object, and hands a heartbeat for the sender to the network manager,
  whose answer it ignores.\<close>

definition handleHeartbeat :: "int \<Rightarrow> 64 word \<Rightarrow> Message \<Rightarrow> MessageHandler \<Rightarrow> MessageHandler" where
  "handleHeartbeat now now_ms msg h =
     (let h1 = h\<lparr>handler_node := updateLastSeen now (handler_node h)\<rparr>;
          heartbeat = createHeartbeat now_ms (senderID msg) h1
      in h1\<lparr>handler_network :=
              snd (sendMessageToPeer (senderID msg) heartbeat (handler_network h1))\<rparr>)"

text \<open>
  The level above the handler. The message callback that \<open>main\<close> (and \<open>SimulatedNode\<close>)
  registers with the network manager passes a received message to \<open>processMessage\<close>,
  which looks its type up in \<open>messageHandlers_\<close>; for \<open>HEARTBEAT\<close> the entry is
  \<open>handleHeartbeat\<close>. Nothing else runs for a received heartbeat. \<open>receive_heartbeat\<close> is
  this path in a process made of a handler and a membership manager, which share the
  \<open>Node\<close> object: the manager sees the node the handler has changed, and nothing else of
  the manager changes.
\<close>

definition receive_heartbeat ::
  "int \<Rightarrow> 64 word \<Rightarrow> Message \<Rightarrow> MessageHandler \<times> DynamicNodeManager
     \<Rightarrow> MessageHandler \<times> DynamicNodeManager" where
  "receive_heartbeat now now_ms msg process =
     (let h' = handleHeartbeat now now_ms msg (fst process)
      in (h', (snd process)\<lparr>dnm_node := handler_node h'\<rparr>))"

definition demo_heartbeat :: "NodeID \<Rightarrow> Message" where
  "demo_heartbeat sender =
     \<lparr>msg_type = HEARTBEAT, senderID = sender, receiverID = 1, payload = [], timestamp = 0\<rparr>"

definition demo_handler :: MessageHandler where
  "demo_handler = \<lparr>handler_node = demo_node 1 [2, 3], handler_network = new_network\<rparr>"

section \<open>Node lists on the wire (MessageHandler.cpp)\<close>

text \<open>
  \<open>memcpy\<close> of an integer writes its bytes in the byte order of the machine; the model
  is little-endian, the order of the wire format. \<open>to_le n w\<close> are the \<open>n\<close> low bytes of
  \<open>w\<close>, lowest first, and \<open>from_le\<close> reads such bytes back.
\<close>

fun to_le :: "nat \<Rightarrow> 'a::len word \<Rightarrow> byte list" where
  "to_le 0 w = []"
| "to_le (Suc n) w = ucast w # to_le n (drop_bit 8 w)"

fun from_le :: "byte list \<Rightarrow> 'a::len word" where
  "from_le [] = 0"
| "from_le (b # bs) = or (ucast b) (push_bit 8 (from_le bs))"

text \<open>
  \<open>serializeNodeList\<close>: the count is the vector's size cast to \<open>uint32_t\<close>, and \<open>count\<close>
  ids are copied. The buffer size \<open>sizeof(uint32_t) + count * sizeof(NodeID)\<close> is computed
  in \<open>size_t\<close> (64 bits) and stays below \<open>2 ^ 36\<close>, so it is a natural number here.
\<close>

definition serializeNodeList :: "NodeID list \<Rightarrow> byte list" where
  "serializeNodeList nodes =
     (let count = (of_nat (length nodes) :: 32 word)
      in to_le 4 count @ concat (map (to_le 8) (take (unat count) nodes)))"

text \<open>
  A \<open>memcpy\<close> out of the buffer reads \<open>n\<close> bytes from \<open>offset\<close> on. A read that reaches
  past the last byte of the buffer is \<open>OutOfBounds\<close>.
\<close>

definition read_bytes :: "byte list \<Rightarrow> nat \<Rightarrow> nat \<Rightarrow> error + byte list" where
  "read_bytes buffer offset n =
     (if offset + n \<le> length buffer then Inr (take n (drop offset buffer))
      else Inl OutOfBounds)"

text \<open>The second \<open>memcpy\<close> of \<open>deserializeNodeList\<close> fills \<open>count\<close> ids from consecutive
  groups of eight bytes.\<close>

fun read_ids :: "nat \<Rightarrow> byte list \<Rightarrow> NodeID list" where
  "read_ids 0 bs = []"
| "read_ids (Suc n) bs = from_le (take 8 bs) # read_ids n (drop 8 bs)"

text \<open>
  \<open>deserializeNodeList\<close>: the size test, the read of the count, the second size test,
  and the read of the ids when the count is positive, in the order of the source.
  \<open>expectedSize\<close> is a \<open>size_t\<close>; with \<open>count\<close> below \<open>2 ^ 32\<close> it stays below \<open>2 ^ 36\<close>
  and does not wrap.
\<close>

definition deserializeNodeList :: "byte list \<Rightarrow> error + NodeID list" where
  "deserializeNodeList bytes =
     (if length bytes < 4 then Inr []
      else
        then_do (read_bytes bytes 0 4) (\<lambda>countBytes.
        let count = (from_le countBytes :: 32 word);
            expectedSize = 4 + unat count * 8
        in if length bytes < expectedSize then Inr []
           else if 0 < count then
             then_do (read_bytes bytes 4 (unat count * 8)) (\<lambda>idBytes.
             Inr (read_ids (unat count) idBytes))
           else Inr []))"

section \<open>Chunked transfer (DataExchange.h, DataExchange.cpp)\<close>

record DataChunk =
  chunkID :: "64 word"
  sequenceNumber :: "32 word"
  totalChunks :: "32 word"
  chunk_data :: "byte list"
  isLastChunk :: bool

text \<open>
  The part of a \<open>DataExchange\<close> object that splitting and reassembly use: the chunk size
  (a \<open>size_t\<close>), the received chunks by transfer id and sequence number, and the completed
  payloads by transfer id. The transfer records, the statistics and the callbacks are left
  out: neither \<open>splitData\<close> nor the bytes that \<open>reassembleData\<close> publishes depend on them.
\<close>

record DataExchange =
  chunkSize :: "64 word"
  receivedChunks :: "(64 word \<times> (32 word \<times> DataChunk) list) list"
  completedData :: "(64 word \<times> byte list) list"

text \<open>
  One round of the loop of \<open>splitData\<close>, for the loop counter \<open>i\<close>. The arithmetic is that
  of the source: \<open>offset\<close> and \<open>chunkDataSize\<close> are \<open>size_t\<close> and wrap at \<open>2 ^ 64\<close>.
\<close>

definition split_chunk :: "64 word \<Rightarrow> byte list \<Rightarrow> 64 word \<Rightarrow> 32 word \<Rightarrow> 32 word \<Rightarrow> DataChunk" where
  "split_chunk cs bytes transferID chunkCount i =
     (let totalSize = (of_nat (length bytes) :: 64 word);
          offset = ucast i * cs;
          chunkDataSize = min cs (totalSize - offset)
      in \<lparr>chunkID = transferID, sequenceNumber = i, totalChunks = chunkCount,
          chunk_data = take (unat chunkDataSize) (drop (unat offset) bytes),
          isLastChunk = (i = chunkCount - 1)\<rparr>)"

text \<open>
  \<open>splitData\<close>. The chunk count is \<open>(totalSize + chunkSize_ - 1) / chunkSize_\<close> in \<open>size_t\<close>,
  cast to \<open>uint32_t\<close>. A chunk size of 0 divides by zero: \<open>None\<close>.
\<close>

definition splitData :: "byte list \<Rightarrow> 64 word \<Rightarrow> DataExchange \<Rightarrow> DataChunk list option" where
  "splitData bytes transferID s =
     (if chunkSize s = 0 then None
      else (let totalSize = (of_nat (length bytes) :: 64 word);
                chunkCount = (ucast ((totalSize + chunkSize s - 1) div chunkSize s) :: 32 word)
            in Some (map (\<lambda>i. split_chunk (chunkSize s) bytes transferID chunkCount (of_nat i))
                       [0..<unat chunkCount])))"

text \<open>The loop of \<open>reassembleData\<close> over the sequence numbers: a missing chunk gives up.\<close>

fun collect_chunks :: "(32 word \<times> DataChunk) list \<Rightarrow> 32 word list \<Rightarrow> byte list \<Rightarrow> byte list option" where
  "collect_chunks chunks [] reassembled = Some reassembled"
| "collect_chunks chunks (i # rest) reassembled =
     (case map_of chunks i of
        None \<Rightarrow> None
      | Some c \<Rightarrow> collect_chunks chunks rest (reassembled @ chunk_data c))"

definition reassembleData :: "64 word \<Rightarrow> DataExchange \<Rightarrow> bool \<times> DataExchange" where
  "reassembleData transferID s =
     (case map_of (receivedChunks s) transferID of
        None \<Rightarrow> (False, s)
      | Some chunks \<Rightarrow>
          if chunks = [] then (False, s)
          else (let expectedChunks = totalChunks (snd (hd chunks)) in
                if length chunks < unat expectedChunks then (False, s)
                else (case collect_chunks chunks (map of_nat [0..<unat expectedChunks]) [] of
                        None \<Rightarrow> (False, s)
                      | Some reassembled \<Rightarrow>
                          (True, s\<lparr>completedData :=
                                     map_assign transferID reassembled (completedData s)\<rparr>))))"

definition handleDataChunk :: "DataChunk \<Rightarrow> DataExchange \<Rightarrow> DataExchange" where
  "handleDataChunk chunk s =
     (let transferID = chunkID chunk;
          s1 = s\<lparr>receivedChunks :=
                  map_index_modify transferID [] (map_assign (sequenceNumber chunk) chunk)
                    (receivedChunks s)\<rparr>
      in snd (reassembleData transferID s1))"

definition getReceivedData :: "64 word \<Rightarrow> DataExchange \<Rightarrow> byte list" where
  "getReceivedData transferID s =
     (case map_of (completedData s) transferID of Some bytes \<Rightarrow> bytes | None \<Rightarrow> [])"

text \<open>Example exchanges: a fresh one with chunk size 4, and one whose chunk size is the
  largest \<open>size_t\<close>.\<close>

definition demo_exchange :: "64 word \<Rightarrow> DataExchange" where
  "demo_exchange cs = \<lparr>chunkSize = cs, receivedChunks = [], completedData = []\<rparr>"

text \<open>The chunks held for one transfer id (\<open>receivedChunks_[transferID]\<close>, empty when there is no entry).\<close>

definition received_for :: "64 word \<Rightarrow> DataExchange \<Rightarrow> (32 word \<times> DataChunk) list" where
  "received_for transferID s =
     (case map_of (receivedChunks s) transferID of Some m \<Rightarrow> m | None \<Rightarrow> [])"


section \<open>Properties of the \<open>std::map\<close> model\<close>

lemma map_of_map_modify:
  "map_of (map_modify k f m) k' = (if k' = k then map_option f (map_of m k) else map_of m k')"
  by (induction m) (auto simp: map_modify_def)

lemma map_of_map_erase:
  "map_of (map_erase k m) k' = (if k' = k then None else map_of m k')"
  by (induction m) (auto simp: map_erase_def)

lemma map_of_map_assign:
  "map_of (map_assign k v m) k' = (if k' = k then Some v else map_of m k')"
  by (induction m) auto

lemma keys_map_modify: "map fst (map_modify k f m) = map fst m"
  by (induction m) (auto simp: map_modify_def)

lemma keys_map_erase: "map fst (map_erase k m) = filter (\<lambda>k'. k' \<noteq> k) (map fst m)"
  by (induction m) (auto simp: map_erase_def)

lemma keys_map_assign: "fst ` set (map_assign k v m) = insert k (fst ` set m)"
proof -
  have "map_of (map_assign k v m) = (map_of m)(k \<mapsto> v)"
    by (rule ext) (simp add: map_of_map_assign)
  then have "dom (map_of (map_assign k v m)) = insert k (dom (map_of m))"
    by simp
  then show ?thesis
    by (simp add: dom_map_of_conv_image_fst)
qed

lemma keys_ascending_map_assign:
  "keys_ascending m \<Longrightarrow> keys_ascending (map_assign k v m)"
  unfolding keys_ascending_def
proof (induction m)
  case Nil
  then show ?case by simp
next
  case (Cons p m)
  obtain k' v' where p: "p = (k', v')" by (cases p)
  have "\<forall>x\<in>fst ` set (map_assign k v m). k' < x" if "k' < k"
    using that Cons.prems by (auto simp: keys_map_assign p)
  then show ?case using Cons by (auto simp: p)
qed

lemma keys_ascending_map_modify:
  "keys_ascending m \<Longrightarrow> keys_ascending (map_modify k f m)"
  by (simp add: keys_ascending_def keys_map_modify)

lemma keys_ascending_map_erase:
  "keys_ascending m \<Longrightarrow> keys_ascending (map_erase k m)"
  by (simp add: keys_ascending_def keys_map_erase sorted_wrt_filter)

lemma keys_ascending_distinct: "keys_ascending m \<Longrightarrow> distinct (map fst m)"
  unfolding keys_ascending_def using strict_sorted_iff by blast

lemma distinct_filter_keys: "keys_ascending m \<Longrightarrow> distinct (map fst (filter P m))"
  by (metis distinct_map_filter keys_ascending_distinct)

lemma concat_lookup_filter:
  assumes "distinct (map fst m)"
  shows "concat (map ((\<lambda>k. case map_of m k of None \<Rightarrow> [] | Some r \<Rightarrow> [g k r]) \<circ> fst) (filter Q m))
         = map (\<lambda>(k, r). g k r) (filter Q m)"
proof -
  have "map_of m k = Some r" if "(k, r) \<in> set m" for k r
    using that assms by simp
  then have "concat (map ((\<lambda>k. case map_of m k of None \<Rightarrow> [] | Some r \<Rightarrow> [g k r]) \<circ> fst) xs)
        = map (\<lambda>(k, r). g k r) xs" if "set xs \<subseteq> set m" for xs
    using that by (induction xs) auto
  then show ?thesis by simp
qed

section \<open>Properties of reliable messaging\<close>

lemma scan_pending_eq:
  "scan_pending now t M m (tr, tf) =
     (tr @ map fst (filter (\<lambda>(k, r). retry_due now t r \<and> retryCount r < M) m),
      tf @ map fst (filter (\<lambda>(k, r). retry_due now t r \<and> \<not> retryCount r < M) m))"
proof (induction m arbitrary: tr tf)
  case Nil
  then show ?case by simp
next
  case (Cons p m)
  obtain k r where p: "p = (k, r)" by (cases p)
  show ?case unfolding p by (simp add: Cons.IH retry_due_def)
qed

lemma retry_loop_fields:
  "onMessageFailed_set (retry_loop now ks s) = onMessageFailed_set s"
  "failed_calls (retry_loop now ks s) = failed_calls s"
  by (induction ks arbitrary: s; simp add: sendWithRetry_def split: option.splits)+

lemma retry_loop_keys:
  "map fst (pendingMessages (retry_loop now ks s)) = map fst (pendingMessages s)"
  by (induction ks arbitrary: s)
     (simp_all add: sendWithRetry_def keys_map_modify split: option.splits)

lemma retry_loop_lookup:
  "distinct ks \<Longrightarrow>
   map_of (pendingMessages (retry_loop now ks s)) k =
     (if k \<in> set ks
      then map_option (\<lambda>r. r\<lparr>retryCount := retryCount r + 1, lastRetry := now\<rparr>)
             (map_of (pendingMessages s) k)
      else map_of (pendingMessages s) k)"
proof (induction ks arbitrary: s)
  case Nil
  then show ?case by simp
next
  case (Cons a ks)
  then show ?case
    by (cases "map_of (pendingMessages s) a")
       (auto simp: sendWithRetry_def map_of_map_modify)
qed

lemma retry_loop_log:
  "distinct ks \<Longrightarrow>
   transport_log (retry_loop now ks s) =
     transport_log s @
     concat (map (\<lambda>k. case map_of (pendingMessages s) k of
                         None \<Rightarrow> [] | Some r \<Rightarrow> [(destinationID r, message r)]) ks)"
proof (induction ks arbitrary: s)
  case Nil
  then show ?case by simp
next
  case (Cons a ks)
  have *: "map (\<lambda>k. case map_of (map_modify a f m) k of
                         None \<Rightarrow> [] | Some r \<Rightarrow> [(destinationID r, message r)]) ks
         = map (\<lambda>k. case map_of m k of
                         None \<Rightarrow> [] | Some r \<Rightarrow> [(destinationID r, message r)]) ks"
    for f :: "ReliableMessage \<Rightarrow> ReliableMessage" and m
    using Cons.prems by (intro map_cong) (auto simp: map_of_map_modify)
  show ?case
    using Cons by (cases "map_of (pendingMessages s) a") (simp_all add: sendWithRetry_def *)
qed

lemma markMessageFailed_lookup:
  "map_of (pendingMessages (markMessageFailed a s)) k =
     (if k = a then None else map_of (pendingMessages s) k)"
  by (auto simp: markMessageFailed_def map_of_map_erase map_of_map_modify split: option.splits)

lemma fail_loop_lookup:
  "map_of (pendingMessages (fail_loop ks s)) k =
     (if k \<in> set ks then None else map_of (pendingMessages s) k)"
  by (induction ks arbitrary: s) (auto simp: markMessageFailed_lookup)

lemma fail_loop_transport: "transport_log (fail_loop ks s) = transport_log s"
  by (induction ks arbitrary: s) (simp_all add: markMessageFailed_def split: option.splits)

lemma fail_loop_calls:
  "distinct ks \<Longrightarrow>
   failed_calls (fail_loop ks s) =
     failed_calls s @
     (if onMessageFailed_set s
      then concat (map (\<lambda>k. case map_of (pendingMessages s) k of
                         None \<Rightarrow> [] | Some r \<Rightarrow> [(k, destinationID r)]) ks)
      else [])"
proof (induction ks arbitrary: s)
  case Nil
  then show ?case by simp
next
  case (Cons a ks)
  have *: "map (\<lambda>k. case map_of (pendingMessages (markMessageFailed a s)) k of
                         None \<Rightarrow> [] | Some r \<Rightarrow> [(k, destinationID r)]) ks
         = map (\<lambda>k. case map_of (pendingMessages s) k of
                         None \<Rightarrow> [] | Some r \<Rightarrow> [(k, destinationID r)]) ks"
    using Cons.prems by (intro map_cong) (auto simp: markMessageFailed_lookup)
  have set: "onMessageFailed_set (markMessageFailed a s) = onMessageFailed_set s"
    by (simp add: markMessageFailed_def split: option.splits)
  have "failed_calls (fail_loop ks (markMessageFailed a s)) =
          failed_calls (markMessageFailed a s) @
          (if onMessageFailed_set s
           then concat (map (\<lambda>k. case map_of (pendingMessages s) k of
                         None \<Rightarrow> [] | Some r \<Rightarrow> [(k, destinationID r)]) ks)
           else [])"
    using Cons by (simp add: * set)
  then show ?case
    by (cases "map_of (pendingMessages s) a") (simp_all add: markMessageFailed_def)
qed

lemma fail_loop_keys_ascending:
  "keys_ascending (pendingMessages s) \<Longrightarrow> keys_ascending (pendingMessages (fail_loop ks s))"
  by (induction ks arbitrary: s)
     (auto simp: markMessageFailed_def keys_ascending_map_erase keys_ascending_map_modify
           split: option.splits)

lemma retryPending_unfold:
  "retryPendingMessages now t M s =
     fail_loop
       (map fst (filter (\<lambda>(k, r). retry_due now t r \<and> \<not> retryCount r < M) (pendingMessages s)))
       (retry_loop now
          (map fst (filter (\<lambda>(k, r). retry_due now t r \<and> retryCount r < M) (pendingMessages s)))
          s)"
  by (simp add: retryPendingMessages_def scan_pending_eq)

lemma retryPending_lookup:
  assumes inv: "keys_ascending (pendingMessages s)"
  shows "map_of (pendingMessages (retryPendingMessages now t M s)) k =
     (case map_of (pendingMessages s) k of
        None \<Rightarrow> None
      | Some r \<Rightarrow>
          (if retry_due now t r
           then (if retryCount r < M
                 then Some (r\<lparr>retryCount := retryCount r + 1, lastRetry := now\<rparr>)
                 else None)
           else Some r))"
proof -
  have d: "distinct (map fst (pendingMessages s))"
    using inv by (rule keys_ascending_distinct)
  have mem: "k \<in> set (map fst (filter (\<lambda>(k, r). P r) (pendingMessages s)))
        \<longleftrightarrow> (\<exists>r. map_of (pendingMessages s) k = Some r \<and> P r)" for P
    using d by (auto simp: image_iff)
  show ?thesis
    unfolding retryPending_unfold
    by (simp only: fail_loop_lookup retry_loop_lookup [OF distinct_filter_keys [OF inv]] mem)
       (auto split: option.splits)
qed

lemma retryPending_keys_ascending:
  "keys_ascending (pendingMessages s) \<Longrightarrow>
   keys_ascending (pendingMessages (retryPendingMessages now t M s))"
  unfolding retryPending_unfold
  by (intro fail_loop_keys_ascending) (simp add: keys_ascending_def retry_loop_keys)

lemma retryPending_bound:
  assumes inv: "keys_ascending (pendingMessages s)"
    and b: "\<forall>(k, r) \<in> set (pendingMessages s). retryCount r \<le> M"
  shows "\<forall>(k, r) \<in> set (pendingMessages (retryPendingMessages now t M s)). retryCount r \<le> M"
proof clarify
  fix k r assume "(k, r) \<in> set (pendingMessages (retryPendingMessages now t M s))"
  then have "map_of (pendingMessages (retryPendingMessages now t M s)) k = Some r"
    using keys_ascending_distinct [OF retryPending_keys_ascending [OF inv, of now t M]]
    by (metis map_of_is_SomeI)
  then obtain r0 where r0: "map_of (pendingMessages s) k = Some r0"
    and r: "r = r0 \<or> (retryCount r0 < M \<and> r = r0\<lparr>retryCount := retryCount r0 + 1, lastRetry := now\<rparr>)"
    unfolding retryPending_lookup [OF inv] by (auto split: option.splits if_splits)
  from r0 have "(k, r0) \<in> set (pendingMessages s)" by (rule map_of_SomeD)
  with b have "retryCount r0 \<le> M" by auto
  with r show "retryCount r \<le> M" by auto
qed

lemma retry_rounds_bound:
  assumes inv: "keys_ascending (pendingMessages s)"
    and b: "\<forall>(k, r) \<in> set (pendingMessages s). retryCount r \<le> M"
  shows "\<forall>(k, r) \<in> set (pendingMessages (foldl (\<lambda>s now. retryPendingMessages now t M s) s nows)).
           retryCount r \<le> M"
  using assms
proof (induction nows arbitrary: s)
  case Nil
  then show ?case by simp
next
  case (Cons a nows)
  show ?case
    using Cons.IH [OF retryPending_keys_ascending [OF Cons.prems(1)] retryPending_bound [OF Cons.prems]]
    by simp
qed

lemma retryPending_transport:
  assumes inv: "keys_ascending (pendingMessages s)"
  shows "transport_log (retryPendingMessages now t M s) =
     transport_log s @
     map (\<lambda>(k, r). (destinationID r, message r))
       (filter (\<lambda>(k, r). retry_due now t r \<and> retryCount r < M) (pendingMessages s))"
  unfolding retryPending_unfold
  by (simp add: fail_loop_transport retry_loop_log [OF distinct_filter_keys [OF inv]]
        concat_lookup_filter [OF keys_ascending_distinct [OF inv]])

lemma retryPending_failed_calls:
  assumes inv: "keys_ascending (pendingMessages s)"
  shows "failed_calls (retryPendingMessages now t M s) =
     failed_calls s @
     (if onMessageFailed_set s
      then map (\<lambda>(k, r). (k, destinationID r))
             (filter (\<lambda>(k, r). retry_due now t r \<and> \<not> retryCount r < M) (pendingMessages s))
      else [])"
proof -
  let ?F = "filter (\<lambda>(k, r). retry_due now t r \<and> \<not> retryCount r < M) (pendingMessages s)"
  let ?R = "map fst (filter (\<lambda>(k, r). retry_due now t r \<and> retryCount r < M) (pendingMessages s))"
  have d: "distinct (map fst (pendingMessages s))"
    using inv by (rule keys_ascending_distinct)
  have same: "map_of (pendingMessages (retry_loop now ?R s)) k = map_of (pendingMessages s) k"
    if "k \<in> set (map fst ?F)" for k
  proof -
    from that have "k \<notin> set ?R" using d by (auto simp: image_iff dest!: map_of_is_SomeI [OF d])
    then show ?thesis by (simp add: retry_loop_lookup [OF distinct_filter_keys [OF inv]])
  qed
  have eq: "concat (map ((\<lambda>k. case map_of (pendingMessages (retry_loop now ?R s)) k of
                         None \<Rightarrow> [] | Some r \<Rightarrow> [(k, destinationID r)]) \<circ> fst) ?F)
      = concat (map ((\<lambda>k. case map_of (pendingMessages s) k of
                         None \<Rightarrow> [] | Some r \<Rightarrow> [(k, destinationID r)]) \<circ> fst) ?F)"
    by (rule arg_cong [where f = concat], rule map_cong [OF refl]) (use same in auto)
  have fc: "failed_calls (retryPendingMessages now t M s) =
      failed_calls s @
      (if onMessageFailed_set s
       then concat (map ((\<lambda>k. case map_of (pendingMessages (retry_loop now ?R s)) k of
                         None \<Rightarrow> [] | Some r \<Rightarrow> [(k, destinationID r)]) \<circ> fst) ?F)
       else [])"
    unfolding retryPending_unfold
    by (simp only: fail_loop_calls [OF distinct_filter_keys [OF inv]] retry_loop_fields map_map)
  show ?thesis
    unfolding fc eq concat_lookup_filter [OF d] ..
qed

text \<open>
  Claim C1, as the code has it. For a message id that is in the pending table,
  \<open>acknowledgeMessage\<close> returns true, sets the record to \<open>ACKNOWLEDGED\<close> and calls the
  delivered callback, on every call: a second acknowledgement of the same id returns true
  and calls the callback a second time.
\<close>

theorem acknowledgeMessage_fires_on_every_call:
  assumes "map_of (pendingMessages s) mid = Some r" and "onMessageDelivered_set s"
  shows "case acknowledgeMessage mid sender s of (ok1, s1) \<Rightarrow>
          (case acknowledgeMessage mid sender' s1 of (ok2, s2) \<Rightarrow>
             ok1 \<and> map_of (pendingMessages s1) mid = Some (r\<lparr>ackStatus := ACKNOWLEDGED\<rparr>)
           \<and> delivered_calls s1 = delivered_calls s @ [(mid, sender)]
           \<and> ok2 \<and> map_of (pendingMessages s2) mid = Some (r\<lparr>ackStatus := ACKNOWLEDGED\<rparr>)
           \<and> delivered_calls s2 = delivered_calls s @ [(mid, sender), (mid, sender')])"
  using assms by (simp add: acknowledgeMessage_def map_of_map_modify)

theorem acknowledgeMessage_fires_on_every_call_witness:
  "map_of (pendingMessages demo_reliable) 7 = Some (demo_record 7 PENDING 1)
   \<and> onMessageDelivered_set demo_reliable
   \<and> fst (acknowledgeMessage 7 2 (snd (acknowledgeMessage 7 2 demo_reliable)))
   \<and> delivered_calls (snd (acknowledgeMessage 7 2 (snd (acknowledgeMessage 7 2 demo_reliable))))
       = [(7, 2), (7, 2)]"
  using acknowledgeMessage_fires_on_every_call
          [of demo_reliable 7 "demo_record 7 PENDING 1" 2 2]
  by (simp add: demo_reliable_def split: prod.splits)

text \<open>
  Claim C1 as stated (the second acknowledgement does not call the callback again) fails:
  in the example table, acknowledging message 7 twice leaves two calls of the delivered
  callback, not one.
\<close>

theorem acknowledgeMessage_twice_counterexample:
  "fst (acknowledgeMessage 7 2 (snd (acknowledgeMessage 7 2 demo_reliable)))
   \<and> delivered_calls (snd (acknowledgeMessage 7 2 (snd (acknowledgeMessage 7 2 demo_reliable))))
       \<noteq> delivered_calls (snd (acknowledgeMessage 7 2 demo_reliable))
   \<and> length (delivered_calls
        (snd (acknowledgeMessage 7 2 (snd (acknowledgeMessage 7 2 demo_reliable))))) = 2"
  by (simp add: acknowledgeMessage_def demo_reliable_def map_modify_def)

text \<open>
  Claim C9. In a pending table with ascending keys, \<open>retryPendingMessages\<close> changes
  exactly the records that are not acknowledged and whose last retry is at least
  \<open>timeoutSeconds\<close> old: below \<open>maxRetries\<close> the record is counted once more, stamped with
  \<open>now\<close> and its message handed to the transport once; otherwise the record is dropped
  and the failed callback called once (the \<open>FAILED\<close> status is set on the record just
  before it is erased). Every other record, and every absent id, stays as it is. So a
  retry count that is at most \<open>maxRetries\<close> stays so over any number of calls.
\<close>

theorem retryPendingMessages_retries_and_fails:
  assumes "keys_ascending (pendingMessages s)"
  shows "(\<forall>k. map_of (pendingMessages (retryPendingMessages now timeoutSeconds maxRetries s)) k =
            (case map_of (pendingMessages s) k of
               None \<Rightarrow> None
             | Some r \<Rightarrow>
                 (if retry_due now timeoutSeconds r
                  then (if retryCount r < maxRetries
                        then Some (r\<lparr>retryCount := retryCount r + 1, lastRetry := now\<rparr>)
                        else None)
                  else Some r)))
       \<and> transport_log (retryPendingMessages now timeoutSeconds maxRetries s) =
           transport_log s @
           map (\<lambda>(k, r). (destinationID r, message r))
             (filter (\<lambda>(k, r). retry_due now timeoutSeconds r \<and> retryCount r < maxRetries)
                (pendingMessages s))
       \<and> failed_calls (retryPendingMessages now timeoutSeconds maxRetries s) =
           failed_calls s @
           (if onMessageFailed_set s
            then map (\<lambda>(k, r). (k, destinationID r))
                   (filter (\<lambda>(k, r). retry_due now timeoutSeconds r \<and> \<not> retryCount r < maxRetries)
                      (pendingMessages s))
            else [])
       \<and> ((\<forall>(k, r) \<in> set (pendingMessages s). retryCount r \<le> maxRetries) \<longrightarrow>
            (\<forall>nows. \<forall>(k, r) \<in> set (pendingMessages
                        (foldl (\<lambda>s now. retryPendingMessages now timeoutSeconds maxRetries s) s nows)).
               retryCount r \<le> maxRetries))"
  using retryPending_lookup [OF assms] retryPending_transport [OF assms]
    retryPending_failed_calls [OF assms] retry_rounds_bound [OF assms]
  by blast

theorem retryPendingMessages_retries_and_fails_witness:
  "keys_ascending (pendingMessages demo_reliable)
   \<and> list_all (\<lambda>(k, r). retryCount r \<le> 3) (pendingMessages demo_reliable)
   \<and> map_of (pendingMessages (retryPendingMessages 130 30 3 demo_reliable)) 5
       = Some (demo_record 5 ACKNOWLEDGED 0)
   \<and> map_of (pendingMessages (retryPendingMessages 130 30 3 demo_reliable)) 7
       = Some ((demo_record 7 PENDING 2)\<lparr>lastRetry := 130\<rparr>)
   \<and> map_of (pendingMessages (retryPendingMessages 130 30 3 demo_reliable)) 9 = None
   \<and> transport_log (retryPendingMessages 130 30 3 demo_reliable) = [(2, demo_message)]
   \<and> failed_calls (retryPendingMessages 130 30 3 demo_reliable) = [(9, 2)]
   \<and> list_all (\<lambda>(k, r). retryCount r \<le> 3)
         (pendingMessages
            (foldl (\<lambda>s now. retryPendingMessages now 30 3 s) demo_reliable [130, 160, 190, 220]))"
proof -
  have h1: "keys_ascending (pendingMessages demo_reliable)"
    by (simp add: demo_reliable_def keys_ascending_def)
  have h2: "\<forall>(k, r) \<in> set (pendingMessages demo_reliable). retryCount r \<le> 3"
    by (simp add: demo_reliable_def demo_record_def)
  note t = retryPendingMessages_retries_and_fails [OF h1, of 130 30 3]
  note l = t [THEN conjunct1, rule_format]
  note tl = t [THEN conjunct2, THEN conjunct1]
  note fc = t [THEN conjunct2, THEN conjunct2, THEN conjunct1]
  note bd = t [THEN conjunct2, THEN conjunct2, THEN conjunct2, THEN mp, OF h2, THEN spec]
  have "map_of (pendingMessages (retryPendingMessages 130 30 3 demo_reliable)) 5
          = Some (demo_record 5 ACKNOWLEDGED 0)"
    unfolding l by (simp add: demo_reliable_def demo_record_def retry_due_def)
  moreover have "map_of (pendingMessages (retryPendingMessages 130 30 3 demo_reliable)) 7
          = Some ((demo_record 7 PENDING 2)\<lparr>lastRetry := 130\<rparr>)"
    unfolding l by (simp add: demo_reliable_def demo_record_def retry_due_def)
  moreover have "map_of (pendingMessages (retryPendingMessages 130 30 3 demo_reliable)) 9 = None"
    unfolding l by (simp add: demo_reliable_def demo_record_def retry_due_def)
  moreover have "transport_log (retryPendingMessages 130 30 3 demo_reliable) = [(2, demo_message)]"
    unfolding tl by (simp add: demo_reliable_def demo_record_def retry_due_def)
  moreover have "failed_calls (retryPendingMessages 130 30 3 demo_reliable) = [(9, 2)]"
    unfolding fc by (simp add: demo_reliable_def demo_record_def retry_due_def)
  ultimately show ?thesis
    using h1 h2 bd [of "[130, 160, 190, 220]"] unfolding list_all_iff by blast
qed

section \<open>Properties of \<open>findPath\<close>\<close>

lemma hops_le: "path_between adj a b p \<Longrightarrow> Suc (hops adj a b) \<le> length p"
proof -
  assume p: "path_between adj a b p"
  then have "length p = Suc (length p - 1)" by (cases p) (auto simp: path_between_def)
  with p have "\<exists>q. path_between adj a b q \<and> length q = Suc (length p - 1)" by auto
  then have "hops adj a b \<le> length p - 1" unfolding hops_def by (rule Least_le)
  then show ?thesis using \<open>length p = Suc (length p - 1)\<close> by simp
qed

lemma hops_path:
  assumes "reachable adj a b"
  shows "\<exists>p. path_between adj a b p \<and> length p = Suc (hops adj a b)"
proof -
  from assms obtain p where p: "path_between adj a b p" unfolding reachable_def by blast
  then have "length p = Suc (length p - 1)" by (cases p) (auto simp: path_between_def)
  with p have "\<exists>n. \<exists>q. path_between adj a b q \<and> length q = Suc n" by blast
  then show ?thesis unfolding hops_def by (rule LeastI_ex)
qed

lemma path_self: "path_between adj a a [a]"
  by (simp add: path_between_def)

lemma reachable_self: "reachable adj a a"
  unfolding reachable_def using path_self by blast

lemma hops_self: "hops adj a a = 0"
  using hops_le [OF path_self, of adj a] by simp

lemma path_snoc:
  "path_between adj a u p \<Longrightarrow> edge adj u v \<Longrightarrow> path_between adj a v (p @ [v])"
  by (auto simp: path_between_def successively_append_iff)

lemma hops_step:
  assumes "reachable adj a u" and "edge adj u v"
  shows "reachable adj a v \<and> hops adj a v \<le> Suc (hops adj a u)"
proof -
  from hops_path [OF assms(1)] obtain p where p: "path_between adj a u p"
    "length p = Suc (hops adj a u)" by blast
  from path_snoc [OF p(1) assms(2)] have q: "path_between adj a v (p @ [v])" .
  from hops_le [OF q] p(2) have "hops adj a v \<le> Suc (hops adj a u)" by simp
  with q show ?thesis unfolding reachable_def by blast
qed

lemma hops_pred:
  assumes "reachable adj a v" and "v \<noteq> a"
  shows "\<exists>u. reachable adj a u \<and> edge adj u v \<and> hops adj a v = Suc (hops adj a u)"
proof -
  from hops_path [OF assms(1)] obtain p where p: "path_between adj a v p"
    "length p = Suc (hops adj a v)" by blast
  from p(1) have ne: "p \<noteq> []" and hd: "hd p = a" and last: "last p = v"
    and succ: "successively (edge adj) p"
    by (auto simp: path_between_def)
  define p' where "p' = butlast p"
  have pp: "p = p' @ [v]" using ne last unfolding p'_def by (metis append_butlast_last_id)
  have ne': "p' \<noteq> []"
  proof
    assume "p' = []"
    with pp hd have "a = v" by simp
    with assms(2) show False by simp
  qed
  from succ pp ne' have s': "successively (edge adj) p'" and e: "edge adj (last p') v"
    by (auto simp: successively_append_iff)
  have hd': "hd p' = a" using hd pp ne' by (metis hd_append2)
  have path': "path_between adj a (last p') p'"
    using ne' hd' s' by (simp add: path_between_def)
  then have r: "reachable adj a (last p')" unfolding reachable_def by blast
  from hops_le [OF path'] pp p(2) have "Suc (hops adj a (last p')) \<le> hops adj a v" by simp
  moreover from hops_step [OF r e] have "hops adj a v \<le> Suc (hops adj a (last p'))" by simp
  ultimately have "hops adj a v = Suc (hops adj a (last p'))" by simp
  with r e show ?thesis by blast
qed

lemma visit_neighbors_full:
  "visit_neighbors c nbrs (q, v, p) = (q', v', p') \<Longrightarrow>
   \<exists>ns. q' = q @ ns \<and> set v' = set v \<union> set ns \<and> set ns = set nbrs - set v
      \<and> (\<forall>x. map_of p' x = (if x \<in> set ns then Some c else map_of p x))"
proof (induction nbrs arbitrary: q v p)
  case Nil
  then show ?case by simp
next
  case (Cons n nbrs)
  show ?case
  proof (cases "n \<in> set v")
    case True
    with Cons.prems have "visit_neighbors c nbrs (q, v, p) = (q', v', p')" by simp
    from Cons.IH [OF this] obtain ns where ns: "q' = q @ ns" "set v' = set v \<union> set ns"
      "set ns = set nbrs - set v"
      "\<forall>x. map_of p' x = (if x \<in> set ns then Some c else map_of p x)"
      by blast
    from ns(3) True have "set ns = set (n # nbrs) - set v" by auto
    with ns show ?thesis by blast
  next
    case False
    with Cons.prems have
      "visit_neighbors c nbrs (q @ [n], set_insert n v, map_assign n c p) = (q', v', p')"
      by simp
    from Cons.IH [OF this] obtain ns where ns: "q' = (q @ [n]) @ ns"
      "set v' = set (set_insert n v) \<union> set ns"
      "set ns = set nbrs - set (set_insert n v)"
      "\<forall>x. map_of p' x = (if x \<in> set ns then Some c else map_of (map_assign n c p) x)"
      by blast
    have "q' = q @ (n # ns)" using ns(1) by simp
    moreover have "set v' = set v \<union> set (n # ns)" using ns(2) by (auto simp: set_set_insert)
    moreover have "set (n # ns) = set (n # nbrs) - set v"
      using ns(3) False by (auto simp: set_set_insert)
    moreover have "\<forall>x. map_of p' x = (if x \<in> set (n # ns) then Some c else map_of p x)"
      using ns(4) by (auto simp: map_of_map_assign)
    ultimately show ?thesis by blast
  qed
qed

lemma bfs_inv_init: "bfs_inv adj from to [from] {from} [from \<mapsto> from]"
  by (simp add: bfs_inv_def reachable_self)

text \<open>Every node nearer than the whole queue has been expanded.\<close>


lemma bfs_inv_near:
  assumes inv: "bfs_inv adj from to q V P"
    and "reachable adj from w" and "\<forall>x\<in>set q. hops adj from w < hops adj from x"
  shows "w \<in> V \<and> w \<notin> set q"
  using assms(2,3)
proof (induction "hops adj from w" arbitrary: w rule: less_induct)
  case less
  have nq: "w \<notin> set q" using less.prems(2) by auto
  show ?case
  proof (cases "w = from")
    case True
    with inv nq show ?thesis by (simp add: bfs_inv_def)
  next
    case False
    from hops_pred [OF less.prems(1) False] obtain u where u: "reachable adj from u"
      "edge adj u w" "hops adj from w = Suc (hops adj from u)" by blast
    have "\<forall>x\<in>set q. hops adj from u < hops adj from x"
      using less.prems(2) u(3) by auto
    with less.hyps [of u] u have "u \<in> V \<and> u \<notin> set q" by simp
    with inv u(2) have "w \<in> V" unfolding bfs_inv_def by blast
    with nq show ?thesis by simp
  qed
qed

lemma sorted_hd_le:
  "sorted (map f (c # q)) \<Longrightarrow> x \<in> set (c # q) \<Longrightarrow> f c \<le> f x"
  by auto

lemma sorted_le_last:
  "sorted (map f q) \<Longrightarrow> q \<noteq> [] \<Longrightarrow> x \<in> set q \<Longrightarrow> f x \<le> f (last q)"
proof (induction q)
  case Nil
  then show ?case by simp
next
  case (Cons a q)
  then show ?case by (cases "q = []") auto
qed

lemma bfs_inv_skip:
  assumes inv: "bfs_inv adj from to (c # q) V P" and "c \<noteq> to" and "map_of adj c = None"
  shows "bfs_inv adj from to q V P"
proof -
  have noedge: "\<not> edge adj c x" for x using assms(3) by (simp add: edge_def)
  have s: "sorted (map (hops adj from) (c # q))" using inv by (simp add: bfs_inv_def)
  have l: "hops adj from (last (c # q)) \<le> Suc (hops adj from c)"
    using inv by (simp add: bfs_inv_def)
  have "q \<noteq> [] \<longrightarrow> hops adj from (last q) \<le> Suc (hops adj from (hd q))"
  proof
    assume ne: "q \<noteq> []"
    then have "hops adj from c \<le> hops adj from (hd q)" using s by (cases q) auto
    with l ne show "hops adj from (last q) \<le> Suc (hops adj from (hd q))" by simp
  qed
  moreover have "\<forall>w\<in>V. w \<notin> set q \<longrightarrow> (\<forall>x. edge adj w x \<longrightarrow> x \<in> V)"
  proof (intro ballI impI allI)
    fix w x assume w: "w \<in> V" "w \<notin> set q" "edge adj w x"
    with noedge have "w \<noteq> c" by auto
    with w have "w \<notin> set (c # q)" by simp
    with inv w show "x \<in> V" unfolding bfs_inv_def by blast
  qed
  moreover have "to \<in> V \<longrightarrow> to \<in> set q" using inv assms(2) by (auto simp: bfs_inv_def)
  moreover have "sorted (map (hops adj from) q)" using s by simp
  moreover have "set q \<subseteq> V" using inv by (simp add: bfs_inv_def)
  moreover have "from \<in> V" "\<forall>v\<in>V. reachable adj from v"
    "\<forall>v\<in>V. v \<noteq> from \<longrightarrow>
        (\<exists>u\<in>V. P v = Some u \<and> edge adj u v \<and> hops adj from v = Suc (hops adj from u))"
    using inv by (simp_all add: bfs_inv_def)
  ultimately show ?thesis unfolding bfs_inv_def by blast
qed

lemma bfs_inv_expand:
  assumes inv: "bfs_inv adj from to (c # q) V P" and cto: "c \<noteq> to"
    and adj: "map_of adj c = Some nbrs"
    and q': "q' = q @ ns" and V': "V' = V \<union> set ns" and ns: "set ns = set nbrs - V"
    and P': "\<forall>x. P' x = (if x \<in> set ns then Some c else P x)"
  shows "bfs_inv adj from to q' V' P'"
proof -
  let ?h = "hops adj from"
  have fromV: "from \<in> V" and sub: "set (c # q) \<subseteq> V"
    and toq: "to \<in> V \<longrightarrow> to \<in> set (c # q)"
    and reach: "\<forall>v\<in>V. reachable adj from v"
    and par: "\<forall>v\<in>V. v \<noteq> from \<longrightarrow>
        (\<exists>u\<in>V. P v = Some u \<and> edge adj u v \<and> ?h v = Suc (?h u))"
    and srt: "sorted (map ?h (c # q))"
    and lst: "?h (last (c # q)) \<le> Suc (?h c)"
    and exp: "\<forall>w\<in>V. w \<notin> set (c # q) \<longrightarrow> (\<forall>x. edge adj w x \<longrightarrow> x \<in> V)"
    using inv by (simp_all add: bfs_inv_def)
  have cV: "c \<in> V" using sub by simp
  have rc: "reachable adj from c" using reach cV by blast
  have edge_c: "edge adj c x \<longleftrightarrow> x \<in> set nbrs" for x using adj by (simp add: edge_def)
  have ns_edge: "edge adj c x" if "x \<in> set ns" for x using that ns edge_c by auto
  have ns_new: "x \<notin> V" if "x \<in> set ns" for x using that ns by auto
  \<comment> \<open>a newly discovered node is exactly one hop further than \<open>c\<close>\<close>
  have ns_hops: "?h x = Suc (?h c)" if x: "x \<in> set ns" for x
  proof -
    from hops_step [OF rc ns_edge [OF x]] have rx: "reachable adj from x"
      and le: "?h x \<le> Suc (?h c)" by simp_all
    have "x \<noteq> from" using ns_new [OF x] fromV by auto
    from hops_pred [OF rx this] obtain u where u: "reachable adj from u" "edge adj u x"
      "?h x = Suc (?h u)" by blast
    have "\<not> ?h u < ?h c"
    proof
      assume less: "?h u < ?h c"
      have "\<forall>y\<in>set (c # q). ?h u < ?h y"
      proof
        fix y assume "y \<in> set (c # q)"
        from sorted_hd_le [OF srt this] less show "?h u < ?h y" by simp
      qed
      from bfs_inv_near [OF inv u(1) this] have "u \<in> V" "u \<notin> set (c # q)" by simp_all
      with exp u(2) have "x \<in> V" by blast
      with ns_new [OF x] show False by simp
    qed
    with u(3) le show ?thesis by simp
  qed
  have 1: "from \<in> V'" using fromV V' by simp
  have 2: "set q' \<subseteq> V'" using sub q' V' by auto
  have 3: "to \<in> V' \<longrightarrow> to \<in> set q'" using toq cto q' V' by auto
  have 4: "\<forall>v\<in>V'. reachable adj from v"
  proof
    fix v assume "v \<in> V'"
    then consider "v \<in> V" | "v \<in> set ns" using V' by auto
    then show "reachable adj from v"
    proof cases
      case 1
      then show ?thesis using reach by blast
    next
      case 2
      from hops_step [OF rc ns_edge [OF 2]] show ?thesis by simp
    qed
  qed
  have 5: "\<forall>v\<in>V'. v \<noteq> from \<longrightarrow>
        (\<exists>u\<in>V'. P' v = Some u \<and> edge adj u v \<and> ?h v = Suc (?h u))"
  proof (intro ballI impI)
    fix v assume v: "v \<in> V'" "v \<noteq> from"
    from v(1) consider "v \<in> V" | "v \<in> set ns" using V' by auto
    then show "\<exists>u\<in>V'. P' v = Some u \<and> edge adj u v \<and> ?h v = Suc (?h u)"
    proof cases
      case 1
      with ns have "v \<notin> set ns" by auto
      then have "P' v = P v" using P' by simp
      moreover from par 1 v(2) obtain u where "u \<in> V" "P v = Some u" "edge adj u v"
        "?h v = Suc (?h u)" by blast
      ultimately show ?thesis using V' by auto
    next
      case 2
      then have "P' v = Some c" using P' by simp
      with ns_edge [OF 2] ns_hops [OF 2] cV V' show ?thesis by auto
    qed
  qed
  have q_le: "?h y \<le> Suc (?h c)" if "y \<in> set q" for y
  proof -
    from that have "q \<noteq> []" by auto
    from sorted_le_last [of ?h "c # q" y] srt that
    have "?h y \<le> ?h (last (c # q))" by simp
    with lst show ?thesis by simp
  qed
  have c_le: "?h c \<le> ?h y" if "y \<in> set q" for y
    using sorted_hd_le [OF srt, of y] that by simp
  have "sorted (map ?h ns)"
  proof -
    have "map ?h ns = replicate (length ns) (Suc (?h c))"
      using ns_hops by (simp add: map_replicate_const [symmetric] cong: map_cong)
    then show ?thesis by simp
  qed
  then have 6: "sorted (map ?h q')"
    unfolding q' using srt q_le ns_hops by (auto simp: sorted_append)
  have 7: "q' \<noteq> [] \<longrightarrow> ?h (last q') \<le> Suc (?h (hd q'))"
  proof
    assume ne: "q' \<noteq> []"
    have a: "?h (last q') \<le> Suc (?h c)"
    proof (cases "ns = []")
      case True
      with ne q' have "last q' \<in> set q" by simp
      then show ?thesis by (rule q_le)
    next
      case False
      then have "last q' \<in> set ns" using q' by simp
      then show ?thesis using ns_hops by simp
    qed
    have "hd q' \<in> set q'" using ne by simp
    then consider "hd q' \<in> set q" | "hd q' \<in> set ns" using q' by auto
    then have "?h c \<le> ?h (hd q')"
    proof cases
      case 1
      then show ?thesis by (rule c_le)
    next
      case 2
      then show ?thesis using ns_hops by simp
    qed
    with a show "?h (last q') \<le> Suc (?h (hd q'))" by simp
  qed
  have 8: "\<forall>w\<in>V'. w \<notin> set q' \<longrightarrow> (\<forall>x. edge adj w x \<longrightarrow> x \<in> V')"
  proof (intro ballI impI allI)
    fix w x assume w: "w \<in> V'" "w \<notin> set q'" "edge adj w x"
    from w(1,2) have wV: "w \<in> V" and wq: "w \<notin> set q" using V' q' by auto
    show "x \<in> V'"
    proof (cases "w = c")
      case True
      with w(3) edge_c have "x \<in> set nbrs" by simp
      then show ?thesis using ns V' by auto
    next
      case False
      with wq have "w \<notin> set (c # q)" by simp
      with exp wV w(3) have "x \<in> V" by blast
      then show ?thesis using V' by simp
    qed
  qed
  from 1 2 3 4 5 6 7 8 show ?thesis unfolding bfs_inv_def by blast
qed

text \<open>Following the parent entries from a visited node leads back to \<open>from\<close>.\<close>


lemma reconstruct_path_visited:
  assumes inv: "bfs_inv adj from to q (set visited) (map_of parent)"
    and "v \<in> set visited"
  shows "\<exists>p. reconstruct_path parent from v path = Some (p @ rev path)
           \<and> path_between adj from v p \<and> length p = Suc (hops adj from v)"
  using assms(2)
proof (induction "hops adj from v" arbitrary: v path rule: less_induct)
  case less
  show ?case
  proof (cases "v = from")
    case True
    then have "reconstruct_path parent from v path = Some ([from] @ rev path)"
      by (subst reconstruct_path.simps) simp
    with True show ?thesis using path_self [of adj "from"] hops_self [of adj "from"] by auto
  next
    case False
    with inv less.prems obtain u where u: "u \<in> set visited" "map_of parent v = Some u"
      "edge adj u v" "hops adj from v = Suc (hops adj from u)"
      unfolding bfs_inv_def by blast
    from less.hyps [of u "path @ [v]"] u obtain p where
      p: "reconstruct_path parent from u (path @ [v]) = Some (p @ rev (path @ [v]))"
         "path_between adj from u p" "length p = Suc (hops adj from u)"
      by auto
    have "reconstruct_path parent from v path = Some ((p @ [v]) @ rev path)"
      using False u(2) p(1) by (subst reconstruct_path.simps) simp
    moreover have "path_between adj from v (p @ [v])" using path_snoc [OF p(2) u(3)] .
    moreover have "length (p @ [v]) = Suc (hops adj from v)" using p(3) u(4) by simp
    ultimately show ?thesis by blast
  qed
qed

lemma bfs_loop_correct:
  assumes "bfs_inv adj from to q (set visited) (map_of parent)"
  shows "(bfs_loop adj from to q visited parent = Some [] \<and> \<not> reachable adj from to)
       \<or> (\<exists>p. bfs_loop adj from to q visited parent = Some p \<and> path_between adj from to p
              \<and> length p = Suc (hops adj from to))"
  using assms
proof (induction adj "from" to q visited parent rule: bfs_loop.induct)
  case (1 adj "from" to visited parent)
  have "\<not> reachable adj from to"
  proof
    assume "reachable adj from to"
    from bfs_inv_near [OF 1 this] have "to \<in> set visited" by simp
    with 1 show False by (simp add: bfs_inv_def)
  qed
  then show ?case by simp
next
  case (2 adj "from" to current queue visited parent)
  show ?case
  proof (cases "current = to")
    case True
    from "2.prems" have "current \<in> set visited" by (simp add: bfs_inv_def)
    with True have "to \<in> set visited" by simp
    from reconstruct_path_visited [OF "2.prems" this, of "[]"] True
    show ?thesis by auto
  next
    case False
    show ?thesis
    proof (cases "map_of adj current")
      case None
      from bfs_inv_skip [OF "2.prems" False None]
      have "bfs_inv adj from to queue (set visited) (map_of parent)" .
      from "2.IH"(1) [OF False None this] show ?thesis using False None by simp
    next
      case (Some nbrs)
      obtain queue' visited' parent' where
        vn: "visit_neighbors current nbrs (queue, visited, parent) = (queue', visited', parent')"
        by (metis prod_cases3)
      from visit_neighbors_full [OF vn] obtain ns where ns: "queue' = queue @ ns"
        "set visited' = set visited \<union> set ns" "set ns = set nbrs - set visited"
        "\<forall>x. map_of parent' x = (if x \<in> set ns then Some current else map_of parent x)"
        by blast
      from bfs_inv_expand [OF "2.prems" False Some ns]
      have "bfs_inv adj from to queue' (set visited') (map_of parent')" .
      from "2.IH"(2) [OF False Some vn [symmetric] refl this]
      show ?thesis using False Some vn by simp
    qed
  qed
qed

subsection \<open>The result of \<open>findPath\<close>\<close>

lemma findPath_init_inv:
  "bfs_inv adj from to [from] (set (set_insert from [])) (map_of (map_assign from from []))"
proof -
  have "set (set_insert from []) = {from}" by (simp add: set_set_insert)
  moreover have "map_of (map_assign from from []) = [from \<mapsto> from]" by (rule ext) simp
  ultimately show ?thesis using bfs_inv_init [of adj "from" to] by simp
qed

text \<open>
  Claim C3. For every adjacency map and all node ids, \<open>findPath\<close> returns: \<open>[from]\<close>
  when \<open>from = to\<close>; the empty vector when no path leads from \<open>from\<close> to \<open>to\<close>;
  otherwise a path from \<open>from\<close> to \<open>to\<close>, both included, that no other such path is
  shorter than.
\<close>

theorem findPath_shortest:
  "findPath from from t = Some [from]
   \<and> (from \<noteq> to \<and> \<not> reachable (adjacencyList t) from to \<longrightarrow> findPath from to t = Some [])
   \<and> (from \<noteq> to \<and> reachable (adjacencyList t) from to \<longrightarrow>
        (\<exists>p. findPath from to t = Some p \<and> path_between (adjacencyList t) from to p
             \<and> (\<forall>q. path_between (adjacencyList t) from to q \<longrightarrow> length p \<le> length q)))"
proof (intro conjI impI)
  show "findPath from from t = Some [from]" by (simp add: findPath_def)
next
  assume a: "from \<noteq> to \<and> \<not> reachable (adjacencyList t) from to"
  from bfs_loop_correct [OF findPath_init_inv, of "adjacencyList t" "from" to] a
  show "findPath from to t = Some []"
    by (auto simp: findPath_def reachable_def)
next
  assume a: "from \<noteq> to \<and> reachable (adjacencyList t) from to"
  from bfs_loop_correct [OF findPath_init_inv, of "adjacencyList t" "from" to] a
  obtain p where p: "findPath from to t = Some p" "path_between (adjacencyList t) from to p"
    "length p = Suc (hops (adjacencyList t) from to)"
    by (auto simp: findPath_def)
  have "length p \<le> length q" if "path_between (adjacencyList t) from to q" for q
    using hops_le [OF that] p(3) by simp
  with p show "\<exists>p. findPath from to t = Some p \<and> path_between (adjacencyList t) from to p
             \<and> (\<forall>q. path_between (adjacencyList t) from to q \<longrightarrow> length p \<le> length q)"
    by blast
qed

lemma demo_findPath_1_4: "findPath 1 4 demo_topology = Some []"
  by (simp add: findPath_def demo_topology_def set_insert_def reconstruct_path.simps)

lemma demo_findPath_4_7: "findPath 4 7 demo_topology = Some [4, 5, 6, 7]"
  by (simp add: findPath_def demo_topology_def set_insert_def reconstruct_path.simps)

lemma demo_findPath_1_7: "findPath 1 7 demo_topology = Some []"
  by (simp add: findPath_def demo_topology_def set_insert_def reconstruct_path.simps)

theorem findPath_shortest_witness:
  "findPath 1 1 demo_topology = Some [1]
   \<and> (4::NodeID) \<noteq> 7 \<and> reachable (adjacencyList demo_topology) 4 7
   \<and> findPath 4 7 demo_topology = Some [4, 5, 6, 7]
   \<and> path_between (adjacencyList demo_topology) 4 7 [4, 5, 6, 7]
   \<and> length [4, 5, 6, 7 :: NodeID] \<le> length [4, 5, 6, 5, 6, 7 :: NodeID]
   \<and> (1::NodeID) \<noteq> 7 \<and> \<not> reachable (adjacencyList demo_topology) 1 7
   \<and> findPath 1 7 demo_topology = Some []"
proof -
  note t47 = findPath_shortest [of 4 demo_topology 7]
  note t17 = findPath_shortest [of 1 demo_topology 7]
  have p1: "path_between (adjacencyList demo_topology) 4 7 [4, 5, 6, 5, 6, 7]"
    by (simp add: path_between_def edge_def demo_topology_def)
  then have r47: "reachable (adjacencyList demo_topology) 4 7"
    unfolding reachable_def by blast
  with t47 obtain p where p: "findPath 4 7 demo_topology = Some p"
    "path_between (adjacencyList demo_topology) 4 7 p"
    "\<forall>q. path_between (adjacencyList demo_topology) 4 7 q \<longrightarrow> length p \<le> length q"
    by auto
  from p(1) have p_eq: "p = [4, 5, 6, 7]" by (simp add: demo_findPath_4_7)
  have n17: "\<not> reachable (adjacencyList demo_topology) 1 7"
  proof
    assume "reachable (adjacencyList demo_topology) 1 7"
    with t17 obtain q where "findPath 1 7 demo_topology = Some q"
      "path_between (adjacencyList demo_topology) 1 7 q" by auto
    then show False by (simp add: demo_findPath_1_7 path_between_def)
  qed
  with t17 have "findPath 1 7 demo_topology = Some []" by simp
  moreover from t47 have "findPath 1 1 demo_topology = Some [1]"
    using findPath_shortest [of 1 demo_topology 1] by simp
  ultimately show ?thesis using p p_eq p1 r47 n17 by auto
qed

lemma findPath_returns:
  "\<exists>p. findPath from to t = Some p
     \<and> (p = [] \<or> path_between (adjacencyList t) from to p)
     \<and> (p = [] \<longleftrightarrow> from \<noteq> to \<and> \<not> reachable (adjacencyList t) from to)"
proof (cases "from = to")
  case True
  then show ?thesis by (simp add: findPath_def path_self)
next
  case False
  from bfs_loop_correct [OF findPath_init_inv, of "adjacencyList t" "from" to] False
  show ?thesis
    by (auto simp: findPath_def path_between_def reachable_def)
qed


section \<open>Properties of the message router\<close>

text \<open>
  Claim C5, as the code has it. \<open>findRoute\<close> answers \<open>[self, target]\<close> for a target
  in the peer roster, whatever the topology says, and \<open>findPath(self, target)\<close>
  otherwise; \<open>isReachable\<close> says whether that route is non-empty and \<open>getHopCount\<close> is
  its length minus one, or -1 when it is empty.
\<close>

theorem isReachable_getHopCount_follow_findRoute:
  "(hasPeer targetID (router_node r) \<longrightarrow>
      findRoute targetID r = Some [self_nodeID (router_node r), targetID]
      \<and> isReachable targetID r = Some True \<and> getHopCount targetID r = Some 1)
   \<and> (\<not> hasPeer targetID (router_node r) \<longrightarrow>
      (\<exists>p. findPath (self_nodeID (router_node r)) targetID (router_topology r) = Some p
         \<and> findRoute targetID r = Some p
         \<and> isReachable targetID r = Some (p \<noteq> [])
         \<and> getHopCount targetID r = Some (if p = [] then - 1 else int (length p) - 1)))"
proof -
  have a: "findRoute targetID r = Some [self_nodeID (router_node r), targetID]
      \<and> isReachable targetID r = Some True \<and> getHopCount targetID r = Some 1"
    if "hasPeer targetID (router_node r)"
    using that by (simp add: findRoute_def isReachable_def getHopCount_def)
  have b: "\<exists>p. findPath (self_nodeID (router_node r)) targetID (router_topology r) = Some p
         \<and> findRoute targetID r = Some p
         \<and> isReachable targetID r = Some (p \<noteq> [])
         \<and> getHopCount targetID r = Some (if p = [] then - 1 else int (length p) - 1)"
    if np: "\<not> hasPeer targetID (router_node r)"
  proof -
    from findPath_returns [of "self_nodeID (router_node r)" targetID "router_topology r"]
    obtain p where "findPath (self_nodeID (router_node r)) targetID (router_topology r) = Some p"
      by blast
    with np show ?thesis
      by (simp add: findRoute_def isReachable_def getHopCount_def)
  qed
  from a b show ?thesis by blast
qed

theorem isReachable_getHopCount_follow_findRoute_witness:
  "hasPeer 4 (router_node (demo_router 1 [4]))
   \<and> isReachable 4 (demo_router 1 [4]) = Some True
   \<and> getHopCount 4 (demo_router 1 [4]) = Some 1
   \<and> \<not> hasPeer 7 (router_node (demo_router 4 []))
   \<and> isReachable 7 (demo_router 4 []) = Some True
   \<and> getHopCount 7 (demo_router 4 []) = Some 3"
proof -
  have h1: "hasPeer 4 (router_node (demo_router 1 [4]))"
    by (simp add: hasPeer_def demo_router_def demo_node_def)
  have h2: "\<not> hasPeer 7 (router_node (demo_router 4 []))"
    by (simp add: hasPeer_def demo_router_def demo_node_def)
  from isReachable_getHopCount_follow_findRoute [of 4 "demo_router 1 [4]"] h1
  have a: "isReachable 4 (demo_router 1 [4]) = Some True"
    "getHopCount 4 (demo_router 1 [4]) = Some 1" by simp_all
  from isReachable_getHopCount_follow_findRoute [of 7 "demo_router 4 []"] h2
  obtain p where p: "findPath (self_nodeID (router_node (demo_router 4 []))) 7
                       (router_topology (demo_router 4 [])) = Some p"
    "isReachable 7 (demo_router 4 []) = Some (p \<noteq> [])"
    "getHopCount 7 (demo_router 4 []) = Some (if p = [] then - 1 else int (length p) - 1)"
    by blast
  from p(1) have "p = [4, 5, 6, 7]"
    by (simp add: demo_router_def demo_node_def demo_findPath_4_7)
  with p(2,3) a h1 h2 show ?thesis by simp
qed

text \<open>
  Claim C5 as stated fails for a target that is in the peer roster and not connected to
  the local node in the topology: seen from node 1 with peer 4, \<open>findPath(1, 4)\<close> is
  empty, and yet 4 is reachable with hop count 1.
\<close>

theorem isReachable_peer_counterexample:
  "findPath (self_nodeID (router_node (demo_router 1 [4]))) 4
       (router_topology (demo_router 1 [4])) = Some []
   \<and> isReachable 4 (demo_router 1 [4]) = Some True
   \<and> getHopCount 4 (demo_router 1 [4]) = Some 1"
  by (simp add: isReachable_def getHopCount_def findRoute_def hasPeer_def
        demo_router_def demo_node_def demo_findPath_1_4)



lemma constructed_no_connections: "constructed nm \<Longrightarrow> activeConnections nm = []"
  by (induction rule: constructed.induct)
     (simp_all add: connectToPeer_def disconnectFromPeer_def sendMessageToPeer_def Let_def)

lemma constructed_not_connected: "constructed nm \<Longrightarrow> \<not> isConnectedTo peerID nm"
  by (simp add: isConnectedTo_def constructed_no_connections)

lemma new_network_constructed: "constructed new_network"
  unfolding new_network_def by (rule constructed.intros(1))






section \<open>Properties of the topology engine\<close>


lemma keys_set_map_modify: "fst ` set (map_modify k f m) = fst ` set m"
  by (metis keys_map_modify set_map)




lemma map_of_map_index_modify:
  "map_of (map_index_modify k d f m) k' =
     (if k' = k then Some (f (case map_of m k of Some v \<Rightarrow> v | None \<Rightarrow> d)) else map_of m k')"
  by (auto simp: map_index_modify_def map_of_map_assign map_of_map_modify split: option.splits)

lemma keys_map_index_modify:
  "fst ` set (map_index_modify k d f m) = insert k (fst ` set m)"
proof (cases "map_of m k")
  case None
  then show ?thesis by (simp add: map_index_modify_def keys_map_assign)
next
  case (Some v)
  then have "k \<in> fst ` set m" by (metis domI dom_map_of_conv_image_fst)
  then show ?thesis using Some by (auto simp: map_index_modify_def keys_set_map_modify)
qed

lemma map_of_filter_keys:
  "map_of (filter (\<lambda>(k, v). P k) m) k = (if P k then map_of m k else None)"
  by (induction m) auto













lemma hasPathDFS_same_node:
  "hasPathDFS (Suc fuel) adj a a visited = Some (True, set_insert a visited)"
  by (simp add: Let_def)



lemma isTopologyConnected_size:
  "isTopologyConnected False t = Inr (length (nodeRegistry t) \<le> 1)"
  by (cases "nodeRegistry t"; cases "tl (nodeRegistry t)")
     (auto simp: isTopologyConnected_def lock_guard_def Let_def set_insert_def)

text \<open>
  \<open>repairTopology\<close> does not return: whatever the topology, its first call, of
  \<open>validateTopology\<close>, blocks on the mutex that \<open>repairTopology\<close> itself holds. The ring of
  edges is never added.
\<close>

lemma repairTopology_never_returns: "repairTopology locked t = Inl Deadlock"
  by (simp add: repairTopology_def validateTopology_def lock_guard_def then_do_def)




section \<open>Properties of failure detection\<close>

lemma counting_blocks:
  "incrementFailureCount True k s = Inl Deadlock"
  "resetFailureCount True k s = Inl Deadlock"
  "shouldRemoveNode True k s = Inl Deadlock"
  by (simp_all add: incrementFailureCount_def resetFailureCount_def shouldRemoveNode_def
        lock_guard_def)

lemma sweep_result:
  "sweep now timeoutSeconds ks (s, failedNodes) =
     (if list_ex (\<lambda>k. map_option state (map_of (dnm_nodeRegistry s) k) = Some ACTIVE) ks
      then Inl Deadlock
      else Inr (s, failedNodes))"
proof (induction ks)
  case Nil
  then show ?case by simp
next
  case (Cons k ks)
  show ?case
  proof (cases "map_of (dnm_nodeRegistry s) k")
    case None
    then show ?thesis using Cons by simp
  next
    case (Some info)
    show ?thesis
    proof (cases "state info = ACTIVE")
      case True
      with Some show ?thesis by (simp add: counting_blocks)
    next
      case False
      with Some Cons show ?thesis by simp
    qed
  qed
qed

lemma active_record_by_key:
  assumes "keys_ascending m"
  shows "list_ex (\<lambda>k. map_option state (map_of m k) = Some ACTIVE) (map fst m) \<longleftrightarrow>
         list_ex (\<lambda>(k, info). state info = ACTIVE) m"
proof
  assume "list_ex (\<lambda>k. map_option state (map_of m k) = Some ACTIVE) (map fst m)"
  then obtain k where "map_option state (map_of m k) = Some ACTIVE"
    unfolding list_ex_iff by blast
  then obtain info where "map_of m k = Some info" "state info = ACTIVE" by auto
  then have "(k, info) \<in> set m" "state info = ACTIVE" by (simp_all add: map_of_SomeD)
  then show "list_ex (\<lambda>(k, info). state info = ACTIVE) m" unfolding list_ex_iff by blast
next
  assume "list_ex (\<lambda>(k, info). state info = ACTIVE) m"
  then obtain k info where in_m: "(k, info) \<in> set m" and act: "state info = ACTIVE"
    unfolding list_ex_iff by blast
  from assms have "distinct (map fst m)" by (rule keys_ascending_distinct)
  with in_m have "map_of m k = Some info" by simp
  moreover from in_m have "k \<in> set (map fst m)" by force
  ultimately show "list_ex (\<lambda>k. map_option state (map_of m k) = Some ACTIVE) (map fst m)"
    using act unfolding list_ex_iff by force
qed

text \<open>
  \<open>removeNodeForced\<close> of a known id does not return either when two or more nodes stay
  registered in the topology: \<open>isTopologyConnected\<close> then answers false (lemma
  \<open>isTopologyConnected_size\<close>) and \<open>repairNetworkAfterNodeRemoval\<close> calls \<open>repairTopology\<close>.
\<close>

lemma removeNodeForced_blocks:
  assumes "map_of (dnm_nodeRegistry s) nodeID \<noteq> None"
    and "1 < length (nodeRegistry (snd (removeNode nodeID (dnm_topology s))))"
  shows "removeNodeForced False nodeID s = Inl Deadlock"
proof -
  have "repairNetworkAfterNodeRemoval nodeID s' = Inl Deadlock"
    if "1 < length (nodeRegistry (dnm_topology s'))" for s'
    using that
    by (simp add: repairNetworkAfterNodeRemoval_def isTopologyConnected_size
          repairTopology_never_returns then_do_def)
  then show ?thesis
    using assms
    by (auto simp: removeNodeForced_def lock_guard_def Let_def then_do_def)
qed

text \<open>
  Claim C8 against the code. \<open>detectFailedNodes\<close> takes \<open>nodesMutex_\<close> and walks the table.
  For the first record in state \<open>ACTIVE\<close> it calls \<open>incrementFailureCount\<close> or
  \<open>resetFailureCount\<close>, which lock \<open>nodesMutex_\<close> again: the call does not return, and no
  failure count is raised, none is reset and no record is removed. With no record in
  state \<open>ACTIVE\<close> it returns and has changed nothing.
\<close>

theorem detectFailedNodes_blocks_on_active_record:
  assumes "keys_ascending (dnm_nodeRegistry s)"
  shows "detectFailedNodes False now timeoutSeconds s =
           (if list_ex (\<lambda>(k, info). state info = ACTIVE) (dnm_nodeRegistry s)
            then Inl Deadlock
            else Inr s)"
proof -
  have "sweep now timeoutSeconds (map fst (dnm_nodeRegistry s)) (s, []) =
     (if list_ex (\<lambda>(k, info). state info = ACTIVE) (dnm_nodeRegistry s)
      then Inl Deadlock
      else Inr (s, []))"
    unfolding sweep_result active_record_by_key [OF assms] ..
  then show ?thesis
    by (simp add: detectFailedNodes_def lock_guard_def then_do_def)
qed

text \<open>
  Node 1 holds the records of peer 2, last seen 100 seconds ago, and of peer 3, both
  \<open>ACTIVE\<close>: the sweep with the timeout of 90 seconds does not return. Over a table with
  one record, of a peer that is leaving, it returns the manager unchanged.
\<close>

theorem detectFailedNodes_blocks_on_active_record_witness:
  "keys_ascending
     (dnm_nodeRegistry (demo_manager [(2, demo_info 2 ACTIVE 0), (3, demo_info 3 ACTIVE 95)]))
   \<and> duration_cast_seconds (100 * ticks_per_second - lastSeen (demo_info 2 ACTIVE 0)) = 100
   \<and> detectFailedNodes False (100 * ticks_per_second) NODE_TIMEOUT_SEC
        (demo_manager [(2, demo_info 2 ACTIVE 0), (3, demo_info 3 ACTIVE 95)]) = Inl Deadlock
   \<and> keys_ascending (dnm_nodeRegistry (demo_manager [(2, demo_info 2 LEAVING 0)]))
   \<and> detectFailedNodes False (100 * ticks_per_second) NODE_TIMEOUT_SEC
        (demo_manager [(2, demo_info 2 LEAVING 0)]) = Inr (demo_manager [(2, demo_info 2 LEAVING 0)])"
proof -
  let ?a = "demo_manager [(2, demo_info 2 ACTIVE 0), (3, demo_info 3 ACTIVE 95)]"
  let ?b = "demo_manager [(2, demo_info 2 LEAVING 0)]"
  have ka: "keys_ascending (dnm_nodeRegistry ?a)"
    by (simp add: keys_ascending_def demo_manager_def)
  have kb: "keys_ascending (dnm_nodeRegistry ?b)"
    by (simp add: keys_ascending_def demo_manager_def)
  have el: "duration_cast_seconds (100 * ticks_per_second - lastSeen (demo_info 2 ACTIVE 0)) = 100"
    by (simp add: duration_cast_seconds_def ticks_per_second_def demo_info_def)
  have a: "detectFailedNodes False (100 * ticks_per_second) NODE_TIMEOUT_SEC ?a = Inl Deadlock"
    using detectFailedNodes_blocks_on_active_record [OF ka, of "100 * ticks_per_second" NODE_TIMEOUT_SEC]
    by (simp add: demo_manager_def demo_info_def)
  have b: "detectFailedNodes False (100 * ticks_per_second) NODE_TIMEOUT_SEC ?b = Inr ?b"
    using detectFailedNodes_blocks_on_active_record [OF kb, of "100 * ticks_per_second" NODE_TIMEOUT_SEC]
    by (simp add: demo_manager_def demo_info_def)
  from ka el a kb b show ?thesis by blast
qed

section \<open>Properties of the heartbeat handler\<close>

lemma handleHeartbeat_effect:
  "handler_node (handleHeartbeat now now_ms msg h) = (handler_node h)\<lparr>self_lastSeen := now\<rparr>
   \<and> send_requests (handler_network (handleHeartbeat now now_ms msg h)) =
       send_requests (handler_network h) @
       [(senderID msg,
         \<lparr>msg_type = HEARTBEAT, senderID = self_nodeID (handler_node h),
          receiverID = senderID msg, payload = [], timestamp = now_ms\<rparr>)]"
  by (simp add: handleHeartbeat_def createHeartbeat_def updateLastSeen_def sendMessageToPeer_def
        Let_def split: option.splits StreamSocket.splits)

lemma updateNodeLastSeen_never_returns:
  "map_of (dnm_nodeRegistry s) nodeID \<noteq> None \<Longrightarrow>
   updateNodeLastSeen locked now nodeID s = Inl Deadlock"
  by (auto simp: updateNodeLastSeen_def resetFailureCount_def lock_guard_def)

text \<open>
  Claim C6 against the code. When a heartbeat is received, the handler stamps the
  \<open>lastSeen_\<close> of the local \<open>Node\<close> object and hands a heartbeat addressed to the sender
  to the network manager. The membership records, where the last-seen time of each peer
  is kept, are the same after the heartbeat as before: neither the handler nor the level
  that calls it touches them.
\<close>

theorem heartbeat_leaves_sender_record_stale:
  "self_lastSeen (handler_node (fst (receive_heartbeat now now_ms msg (h, m)))) = now
   \<and> dnm_nodeRegistry (snd (receive_heartbeat now now_ms msg (h, m))) = dnm_nodeRegistry m
   \<and> send_requests (handler_network (fst (receive_heartbeat now now_ms msg (h, m)))) =
       send_requests (handler_network h) @
       [(senderID msg,
         \<lparr>msg_type = HEARTBEAT, senderID = self_nodeID (handler_node h),
          receiverID = senderID msg, payload = [], timestamp = now_ms\<rparr>)]"
  using handleHeartbeat_effect [of now now_ms msg h]
  by (simp add: receive_heartbeat_def Let_def)

text \<open>
  Node 1 receives a heartbeat from its peer 2 at second 100. The membership record of
  peer 2 was last stamped at second 0, and is still stamped so after the heartbeat.
\<close>

theorem heartbeat_leaves_sender_record_stale_witness:
  "self_lastSeen (handler_node
      (fst (receive_heartbeat 100 100000 (demo_heartbeat 2)
              (demo_handler, demo_manager [(2, demo_info 2 ACTIVE 0), (3, demo_info 3 ACTIVE 95)]))))
     = 100
   \<and> map_option lastSeen
        (map_of (dnm_nodeRegistry
           (snd (receive_heartbeat 100 100000 (demo_heartbeat 2)
              (demo_handler, demo_manager [(2, demo_info 2 ACTIVE 0), (3, demo_info 3 ACTIVE 95)]))))
           2)
     = Some 0
   \<and> send_requests (handler_network
        (fst (receive_heartbeat 100 100000 (demo_heartbeat 2)
              (demo_handler, demo_manager [(2, demo_info 2 ACTIVE 0), (3, demo_info 3 ACTIVE 95)]))))
     = [(2, \<lparr>msg_type = HEARTBEAT, senderID = 1, receiverID = 2, payload = [],
              timestamp = 100000\<rparr>)]"
  using heartbeat_leaves_sender_record_stale
          [of 100 100000 "demo_heartbeat 2" demo_handler
              "demo_manager [(2, demo_info 2 ACTIVE 0), (3, demo_info 3 ACTIVE 95)]"]
  by (simp add: demo_manager_def demo_info_def demo_heartbeat_def demo_handler_def demo_node_def
        new_network_def)

section \<open>Properties of the node-list wire format\<close>

lemma length_to_le: "length (to_le n w) = n"
  by (induction n arbitrary: w) auto

lemma from_le_to_le: "(from_le (to_le n w) :: 'a::len word) = take_bit (8 * n) (w :: 'a word)"
proof (induction n arbitrary: w)
  case 0
  then show ?case by simp
next
  case (Suc n)
  have "or (ucast (ucast w :: byte)) (push_bit 8 (take_bit (8 * n) (drop_bit 8 w)))
      = take_bit (8 * Suc n) w"
    by (rule bit_word_eqI) (auto simp: bit_simps)
  then show ?case by (simp add: Suc.IH)
qed

lemma from_le_to_le_64: "from_le (to_le 8 (w :: 64 word)) = w"
  by (simp only: from_le_to_le) (simp add: take_bit_word_eq_self)

lemma from_le_to_le_32: "from_le (to_le 4 (w :: 32 word)) = w"
  by (simp only: from_le_to_le) (simp add: take_bit_word_eq_self)

lemma read_ids_concat:
  "read_ids (length ns) (concat (map (to_le 8) ns) @ rest) = ns"
proof (induction ns)
  case Nil
  then show ?case by simp
next
  case (Cons a ns)
  have l: "length (to_le 8 a) = 8" by (rule length_to_le)
  have "read_ids (Suc (length ns)) (to_le 8 a @ concat (map (to_le 8) ns) @ rest)
      = from_le (to_le 8 a) # read_ids (length ns) (concat (map (to_le 8) ns) @ rest)"
    unfolding read_ids.simps using l by simp
  then show ?case using Cons.IH by (simp add: from_le_to_le_64)
qed

lemma unat_count: "length nodes < 2 ^ 32 \<Longrightarrow> unat (of_nat (length nodes) :: 32 word) = length nodes"
  by (simp add: unat_of_nat)

lemma length_concat_to_le: "length (concat (map (to_le 8) ns)) = 8 * length ns"
  by (induction ns) (simp_all add: length_to_le)

lemma read_bytes_inside:
  "offset + n \<le> length buffer \<Longrightarrow> read_bytes buffer offset n = Inr (take n (drop offset buffer))"
  by (simp add: read_bytes_def)

lemma deserializeNodeList_reads_inside: "\<exists>ids. deserializeNodeList bytes = Inr ids"
proof (cases "length bytes < 4")
  case True
  then show ?thesis by (simp add: deserializeNodeList_def)
next
  case False
  then have r1: "read_bytes bytes 0 4 = Inr (take 4 bytes)" by (simp add: read_bytes_def)
  let ?count = "from_le (take 4 bytes) :: 32 word"
  show ?thesis
  proof (cases "length bytes < 4 + unat ?count * 8")
    case True
    with False r1 show ?thesis by (simp add: deserializeNodeList_def then_do_def Let_def)
  next
    case large: False
    then have "read_bytes bytes 4 (unat ?count * 8) = Inr (take (unat ?count * 8) (drop 4 bytes))"
      by (simp add: read_bytes_def)
    with False large r1 show ?thesis
      by (simp add: deserializeNodeList_def then_do_def Let_def)
  qed
qed

lemma deserializeNodeList_short:
  "length bytes < 4 \<or> length bytes < 4 + unat (from_le (take 4 bytes) :: 32 word) * 8 \<Longrightarrow>
   deserializeNodeList bytes = Inr []"
  by (auto simp: deserializeNodeList_def then_do_def Let_def read_bytes_def)

lemma deserialize_serialize:
  assumes len: "length nodes < 2 ^ 32"
  shows "deserializeNodeList (serializeNodeList nodes) = Inr nodes"
proof -
  let ?count = "of_nat (length nodes) :: 32 word"
  let ?ser = "serializeNodeList nodes"
  have c: "unat ?count = length nodes" using len by (rule unat_count)
  have ser: "?ser = to_le 4 ?count @ concat (map (to_le 8) nodes)"
    by (simp add: serializeNodeList_def Let_def c)
  have l4: "length (to_le 4 ?count) = 4" by (rule length_to_le)
  have tk: "take 4 ?ser = to_le 4 ?count" unfolding ser using l4 by simp
  have dr: "drop 4 ?ser = concat (map (to_le 8) nodes)" unfolding ser using l4 by simp
  have ln: "length ?ser = 4 + 8 * length nodes"
    unfolding ser using l4 by (simp add: length_concat_to_le)
  have r1: "read_bytes ?ser 0 4 = Inr (to_le 4 ?count)"
    using ln tk by (simp add: read_bytes_def)
  have r2: "read_bytes ?ser 4 (length nodes * 8) = Inr (concat (map (to_le 8) nodes))"
    using ln dr by (simp add: read_bytes_def length_concat_to_le)
  have ids: "read_ids (length nodes) (concat (map (to_le 8) nodes)) = nodes"
    using read_ids_concat [of nodes "[]"] by simp
  have nz: "nodes = []" if "?count = 0"
  proof -
    from that have "unat ?count = 0" by simp
    then show ?thesis using c by simp
  qed
  show ?thesis
  proof (cases "?count = 0")
    case True
    have "deserializeNodeList ?ser = Inr []"
      using ln
      by (simp add: deserializeNodeList_def then_do_def Let_def r1 from_le_to_le_32 True)
    with nz [OF True] show ?thesis by simp
  next
    case False
    then have pos: "0 < ?count" by (simp add: word_greater_zero_iff)
    show ?thesis
      using pos ln
      by (simp add: deserializeNodeList_def then_do_def Let_def r1 from_le_to_le_32 c r2 ids)
  qed
qed

text \<open>
  Claim C10. Whatever the buffer, \<open>deserializeNodeList\<close> returns a list: none of its
  reads reaches past the end of the buffer, because each size test comes before the read
  it guards. A node list shorter than \<open>2 ^ 32\<close> entries is read back as it was written. A
  buffer shorter than 4 bytes, or shorter than the 4 + 8 * count bytes its count field
  asks for, is answered with the empty list.
\<close>

theorem deserializeNodeList_roundtrip:
  "(\<exists>ids. deserializeNodeList bytes = Inr ids)
   \<and> (length nodes < 2 ^ 32 \<longrightarrow> deserializeNodeList (serializeNodeList nodes) = Inr nodes)
   \<and> (length bytes < 4 \<longrightarrow> deserializeNodeList bytes = Inr [])
   \<and> (4 \<le> length bytes \<and> length bytes < 4 + unat (from_le (take 4 bytes) :: 32 word) * 8 \<longrightarrow>
        deserializeNodeList bytes = Inr [])"
  using deserializeNodeList_reads_inside [of bytes] deserialize_serialize [of nodes]
    deserializeNodeList_short [of bytes]
  by blast

theorem deserializeNodeList_roundtrip_witness:
  "length [1, 0x0102030405060708 :: NodeID] < 2 ^ 32
   \<and> serializeNodeList [1, 0x0102030405060708] =
       [2, 0, 0, 0, 1, 0, 0, 0, 0, 0, 0, 0, 8, 7, 6, 5, 4, 3, 2, 1]
   \<and> deserializeNodeList [2, 0, 0, 0, 1, 0, 0, 0, 0, 0, 0, 0, 8, 7, 6, 5, 4, 3, 2, 1] =
       Inr [1, 0x0102030405060708]
   \<and> length [2, 0, 0 :: byte] < 4
   \<and> deserializeNodeList [2, 0, 0] = Inr []
   \<and> 4 \<le> length [2, 0, 0, 0, 1, 0, 0, 0, 0, 0, 0, 0, 8, 7, 6, 5, 4, 3, 2 :: byte]
   \<and> length [2, 0, 0, 0, 1, 0, 0, 0, 0, 0, 0, 0, 8, 7, 6, 5, 4, 3, 2 :: byte] <
       4 + unat (from_le (take 4 [2, 0, 0, 0, 1, 0, 0, 0, 0, 0, 0, 0, 8, 7, 6, 5, 4, 3, 2 :: byte])
                  :: 32 word) * 8
   \<and> deserializeNodeList [2, 0, 0, 0, 1, 0, 0, 0, 0, 0, 0, 0, 8, 7, 6, 5, 4, 3, 2] = Inr []
   \<and> read_bytes [2, 0, 0 :: byte] 0 4 = Inl OutOfBounds
   \<and> read_bytes [2, 0, 0, 0, 1, 0, 0, 0, 0, 0, 0, 0, 8, 7, 6, 5, 4, 3, 2 :: byte] 4 16 =
       Inl OutOfBounds"
proof -
  have ser: "serializeNodeList [1, 0x0102030405060708] =
       [2, 0, 0, 0, 1, 0, 0, 0, 0, 0, 0, 0, 8, 7, 6, 5, 4, 3, 2, 1]"
    by code_simp
  have cnt: "unat (from_le (take 4 [2, 0, 0, 0, 1, 0, 0, 0, 0, 0, 0, 0, 8, 7, 6, 5, 4, 3, 2 :: byte])
                  :: 32 word) = 2"
    by simp
  from deserializeNodeList_roundtrip [of "[2, 0, 0]" "[1, 0x0102030405060708]"]
  have a: "deserializeNodeList (serializeNodeList [1, 0x0102030405060708]) =
             Inr [1, 0x0102030405060708]"
    "deserializeNodeList [2, 0, 0] = Inr []"
    by simp_all
  from deserializeNodeList_roundtrip
         [of "[2, 0, 0, 0, 1, 0, 0, 0, 0, 0, 0, 0, 8, 7, 6, 5, 4, 3, 2]" "[]"]
  have b: "deserializeNodeList [2, 0, 0, 0, 1, 0, 0, 0, 0, 0, 0, 0, 8, 7, 6, 5, 4, 3, 2] = Inr []"
    using cnt by (simp del: from_le.simps)
  have c: "read_bytes [2, 0, 0 :: byte] 0 4 = Inl OutOfBounds"
    "read_bytes [2, 0, 0, 0, 1, 0, 0, 0, 0, 0, 0, 0, 8, 7, 6, 5, 4, 3, 2 :: byte] 4 16 =
       Inl OutOfBounds"
    by (simp_all add: read_bytes_def)
  from a ser b cnt c show ?thesis by simp
qed

section \<open>Properties of chunked transfer\<close>

lemma unat_ucast_32: "unat w < 2 ^ 32 \<Longrightarrow> unat (ucast (w :: 64 word) :: 32 word) = unat w"
  by (simp add: unsigned_ucast_eq take_bit_nat_eq_self)

lemma ucast_of_nat_64: "i < 2 ^ 32 \<Longrightarrow> (ucast (of_nat i :: 32 word) :: 64 word) = of_nat i"
  by (simp add: unsigned_of_nat take_bit_nat_eq_self)

lemma unat_of_nat_64: "n < 2 ^ 64 \<Longrightarrow> unat (of_nat n :: 64 word) = n"
  by (simp add: unat_of_nat)

lemma unat_of_nat_32: "n < 2 ^ 32 \<Longrightarrow> unat (of_nat n :: 32 word) = n"
  by (simp add: unat_of_nat)

lemma unat_min: "unat (min a b) = min (unat a) (unat b)"
  by (simp add: min_def word_le_nat_alt)

lemma of_nat_32_inj: "i < 2 ^ 32 \<Longrightarrow> j < 2 ^ 32 \<Longrightarrow> (of_nat i :: 32 word) = of_nat j \<Longrightarrow> i = j"
  by (metis unat_of_nat_32)

lemma chunk_count_times:
  fixes c :: nat
  assumes "0 < c"
  shows "L \<le> (L + c - 1) div c * c"
proof -
  have "(L + c - 1) div c * c + (L + c - 1) mod c = L + c - 1" by simp
  moreover have "(L + c - 1) mod c < c" using assms by simp
  ultimately show ?thesis by linarith
qed

lemma chunk_offset_inside:
  fixes c :: nat
  assumes "0 < c" "i < (L + c - 1) div c"
  shows "i * c < L"
proof -
  have "Suc i \<le> (L + c - 1) div c" using assms(2) by simp
  then have "Suc i * c \<le> (L + c - 1) div c * c" by (rule mult_le_mono1)
  also have "\<dots> \<le> L + c - 1" by simp
  finally have "i * c + c \<le> L + c - 1" by simp
  then show ?thesis using assms(1) by linarith
qed

lemma chunkCount_value:
  fixes cs :: "64 word"
  assumes cs: "cs \<noteq> 0" and fit: "L + unat cs - 1 < 2 ^ 64"
    and n32: "(L + unat cs - 1) div unat cs < 2 ^ 32"
  shows "(ucast ((of_nat L + cs - 1) div cs) :: 32 word) = of_nat ((L + unat cs - 1) div unat cs)"
proof -
  have c0: "0 < unat cs" using cs by (simp add: unat_gt_0)
  have "(of_nat (L + unat cs - 1) :: 64 word) = of_nat (L + unat cs) - of_nat 1"
    using c0 by (intro of_nat_diff) simp
  then have eq: "(of_nat L + cs - 1 :: 64 word) = of_nat (L + unat cs - 1)" by simp
  have "unat (of_nat L + cs - 1) = L + unat cs - 1"
    unfolding eq using fit by (rule unat_of_nat_64)
  then have d: "unat ((of_nat L + cs - 1) div cs) = (L + unat cs - 1) div unat cs"
    by (simp add: unat_div)
  have "(ucast ((of_nat L + cs - 1) div cs) :: 32 word) = of_nat (unat ((of_nat L + cs - 1) div cs))"
    by (simp add: of_nat_unat)
  then show ?thesis by (simp only: d)
qed

lemma split_chunk_value:
  fixes cs :: "64 word"
  assumes cs: "cs \<noteq> 0" and fit: "length B + unat cs - 1 < 2 ^ 64"
    and n32: "(length B + unat cs - 1) div unat cs < 2 ^ 32"
    and i: "i < (length B + unat cs - 1) div unat cs"
  shows "split_chunk cs B tid (of_nat ((length B + unat cs - 1) div unat cs)) (of_nat i) =
           \<lparr>chunkID = tid, sequenceNumber = of_nat i,
            totalChunks = of_nat ((length B + unat cs - 1) div unat cs),
            chunk_data = take (unat cs) (drop (i * unat cs) B),
            isLastChunk = (i = (length B + unat cs - 1) div unat cs - 1)\<rparr>"
proof -
  let ?c = "unat cs"
  let ?n = "(length B + ?c - 1) div ?c"
  have c0: "0 < ?c" using cs by (simp add: unat_gt_0)
  have inside: "i * ?c < length B" using c0 i by (rule chunk_offset_inside)
  have L64: "length B < 2 ^ 64" using fit c0 by linarith
  have i32: "i < 2 ^ 32" using i n32 by simp
  have i64: "i < 2 ^ 64" using i32 by (rule less_trans) simp
  have uc: "(ucast (of_nat i :: 32 word) :: 64 word) = of_nat i" using i32 by (rule ucast_of_nat_64)
  have ui: "unat (of_nat i :: 64 word) = i" using i64 by (rule unat_of_nat_64)
  have "i * unat cs < 2 ^ 64" using inside L64 by (rule less_trans)
  then have "unat (of_nat i :: 64 word) * unat cs < 2 ^ LENGTH(64)"
    by (simp only: ui) simp
  then have "unat (of_nat i * cs) = unat (of_nat i :: 64 word) * unat cs"
    using unat_mult_lem by blast
  then have uo: "unat (of_nat i * cs) = i * ?c"
    by (simp only: ui)
  have ul: "unat (of_nat (length B) :: 64 word) = length B" using L64 by (rule unat_of_nat_64)
  have "of_nat i * cs \<le> (of_nat (length B) :: 64 word)"
    unfolding word_le_nat_alt uo ul using inside by simp
  then have us: "unat (of_nat (length B) - of_nat i * cs) = length B - i * ?c"
    by (simp add: unat_sub uo ul)
  have um: "unat (min cs (of_nat (length B) - of_nat i * cs)) = min ?c (length B - i * ?c)"
    by (simp only: unat_min us)
  have tk: "take (min ?c (length B - i * ?c)) (drop (i * ?c) B) = take ?c (drop (i * ?c) B)"
    by (simp add: min_def)
  have n1: "0 < ?n" using i by simp
  have "(of_nat (?n - 1) :: 32 word) = of_nat ?n - of_nat 1"
    using n1 by (intro of_nat_diff) simp
  then have pn: "(of_nat ?n - 1 :: 32 word) = of_nat (?n - 1)" by simp
  have "?n - 1 < 2 ^ 32" using n32 by simp
  then have lastc: "((of_nat i :: 32 word) = of_nat ?n - 1) = (i = ?n - 1)"
    unfolding pn using i32 of_nat_32_inj by blast
  show ?thesis
    unfolding split_chunk_def Let_def uc uo um tk lastc ..
qed

lemma splitData_value:
  assumes cs: "chunkSize s \<noteq> 0" and fit: "length B + unat (chunkSize s) - 1 < 2 ^ 64"
    and n32: "(length B + unat (chunkSize s) - 1) div unat (chunkSize s) < 2 ^ 32"
  shows "splitData B tid s =
           Some (map (\<lambda>i. \<lparr>chunkID = tid, sequenceNumber = of_nat i,
                             totalChunks = of_nat ((length B + unat (chunkSize s) - 1) div unat (chunkSize s)),
                             chunk_data = take (unat (chunkSize s)) (drop (i * unat (chunkSize s)) B),
                             isLastChunk = (i = (length B + unat (chunkSize s) - 1) div unat (chunkSize s) - 1)\<rparr>)
                      [0..<(length B + unat (chunkSize s) - 1) div unat (chunkSize s)])"
proof -
  let ?n = "(length B + unat (chunkSize s) - 1) div unat (chunkSize s)"
  have cc: "(ucast ((of_nat (length B) + chunkSize s - 1) div chunkSize s) :: 32 word) = of_nat ?n"
    using cs fit n32 by (rule chunkCount_value)
  have un: "unat (of_nat ?n :: 32 word) = ?n" using n32 by (rule unat_of_nat_32)
  have "map (\<lambda>i. split_chunk (chunkSize s) B tid (of_nat ?n) (of_nat i)) [0..<?n] =
        map (\<lambda>i. \<lparr>chunkID = tid, sequenceNumber = of_nat i, totalChunks = of_nat ?n,
                    chunk_data = take (unat (chunkSize s)) (drop (i * unat (chunkSize s)) B),
                    isLastChunk = (i = ?n - 1)\<rparr>) [0..<?n]"
  proof (rule map_cong [OF refl])
    fix i assume "i \<in> set [0..<?n]"
    then have "i < ?n" by simp
    with cs fit n32 show "split_chunk (chunkSize s) B tid (of_nat ?n) (of_nat i) =
        \<lparr>chunkID = tid, sequenceNumber = of_nat i, totalChunks = of_nat ?n,
         chunk_data = take (unat (chunkSize s)) (drop (i * unat (chunkSize s)) B),
         isLastChunk = (i = ?n - 1)\<rparr>"
      by (rule split_chunk_value)
  qed
  then show ?thesis
    using cs by (simp only: splitData_def Let_def cc un if_False)
qed

lemma concat_pieces: "concat (map (\<lambda>i. take c (drop (i * c) B)) [0..<k]) = take (k * c) B"
proof (induction k)
  case 0
  then show ?case by simp
next
  case (Suc k)
  have "take (k * c + c) B = take (k * c) B @ take c (drop (k * c) B)" by (rule take_add)
  then show ?case using Suc by (simp add: add.commute)
qed

lemma concat_all_pieces:
  assumes "0 < c"
  shows "concat (map (\<lambda>i. take c (drop (i * c) B)) [0..<(length B + c - 1) div c]) = B"
  unfolding concat_pieces using chunk_count_times [OF assms, of "length B"] by simp

lemma receivedChunks_handle:
  "receivedChunks (handleDataChunk c s) =
     map_index_modify (chunkID c) [] (map_assign (sequenceNumber c) c) (receivedChunks s)"
  by (simp add: handleDataChunk_def reassembleData_def Let_def split: option.splits)

lemma received_for_handle:
  "received_for tid (handleDataChunk c s) =
     (if chunkID c = tid then map_assign (sequenceNumber c) c (received_for tid s)
      else received_for tid s)"
  by (simp add: received_for_def receivedChunks_handle map_of_map_index_modify split: option.splits)

lemma values_map_assign: "snd ` set (map_assign k v m) \<subseteq> insert v (snd ` set m)"
  by (induction m) (force split: if_splits)+

lemma received_inv:
  assumes start: "received_for tid rx = []"
  shows "(\<forall>c\<in>set xs. chunkID c = tid) \<Longrightarrow> inj_on sequenceNumber (set xs) \<Longrightarrow>
     keys_ascending (received_for tid (fold handleDataChunk xs rx))
     \<and> fst ` set (received_for tid (fold handleDataChunk xs rx)) = sequenceNumber ` set xs
     \<and> (\<forall>c\<in>set xs. map_of (received_for tid (fold handleDataChunk xs rx)) (sequenceNumber c) = Some c)
     \<and> snd ` set (received_for tid (fold handleDataChunk xs rx)) \<subseteq> set xs"
proof (induction xs rule: rev_induct)
  case Nil
  then show ?case by (simp add: start keys_ascending_def)
next
  case (snoc c ys)
  let ?m = "received_for tid (fold handleDataChunk ys rx)"
  have ids: "\<forall>c\<in>set ys. chunkID c = tid" and cid: "chunkID c = tid" using snoc.prems(1) by simp_all
  have inj: "inj_on sequenceNumber (set ys)" using snoc.prems(2) by (simp add: inj_on_def)
  from snoc.IH [OF ids inj]
  have a: "keys_ascending ?m" and k: "fst ` set ?m = sequenceNumber ` set ys"
    and l: "\<forall>c\<in>set ys. map_of ?m (sequenceNumber c) = Some c" and v: "snd ` set ?m \<subseteq> set ys"
    by simp_all
  have step: "received_for tid (fold handleDataChunk (ys @ [c]) rx) = map_assign (sequenceNumber c) c ?m"
    by (simp add: received_for_handle cid)
  have "\<forall>c'\<in>set (ys @ [c]). map_of (map_assign (sequenceNumber c) c ?m) (sequenceNumber c') = Some c'"
  proof
    fix c' assume c': "c' \<in> set (ys @ [c])"
    show "map_of (map_assign (sequenceNumber c) c ?m) (sequenceNumber c') = Some c'"
    proof (cases "sequenceNumber c' = sequenceNumber c")
      case True
      have "c \<in> set (ys @ [c])" by simp
      with snoc.prems(2) c' True have "c' = c" unfolding inj_on_def by blast
      then show ?thesis by (simp add: map_of_map_assign)
    next
      case False
      then have "c' \<in> set ys" using c' by auto
      then show ?thesis using False l by (simp add: map_of_map_assign)
    qed
  qed
  moreover have "snd ` set (map_assign (sequenceNumber c) c ?m) \<subseteq> set (ys @ [c])"
    using values_map_assign [of "sequenceNumber c" c ?m] v by auto
  moreover have "fst ` set (map_assign (sequenceNumber c) c ?m) = sequenceNumber ` set (ys @ [c])"
    by (simp add: keys_map_assign k)
  moreover have "keys_ascending (map_assign (sequenceNumber c) c ?m)"
    using a by (rule keys_ascending_map_assign)
  ultimately show ?case unfolding step by blast
qed

lemma collect_chunks_all:
  "\<forall>i\<in>set ns. map_of m (f i) = Some (g i) \<Longrightarrow>
     collect_chunks m (map f ns) acc = Some (acc @ concat (map (\<lambda>i. chunk_data (g i)) ns))"
  by (induction ns arbitrary: acc) simp_all

lemma completed_handle:
  assumes m: "received_for (chunkID c) (handleDataChunk c s) = m" and ne: "m \<noteq> []"
    and full: "\<not> length m < unat (totalChunks (snd (hd m)))"
    and coll: "collect_chunks m (map of_nat [0..<unat (totalChunks (snd (hd m)))]) [] = Some R"
  shows "map_of (completedData (handleDataChunk c s)) (chunkID c) = Some R"
proof -
  have "map_of (map_index_modify (chunkID c) [] (map_assign (sequenceNumber c) c) (receivedChunks s))
          (chunkID c) = Some m"
    using m by (simp add: received_for_def receivedChunks_handle map_of_map_index_modify)
  then show ?thesis
    using ne full coll
    by (simp add: handleDataChunk_def reassembleData_def Let_def map_of_map_assign)
qed


lemma receive_all:
  assumes chunks: "chunks = map (\<lambda>i. \<lparr>chunkID = tid, sequenceNumber = of_nat i, totalChunks = of_nat n,
                                     chunk_data = d i, isLastChunk = l i\<rparr>) [0..<n]"
    and n32: "n < 2 ^ 32"
    and fresh: "map_of (receivedChunks rx) tid = None" "map_of (completedData rx) tid = None"
    and all: "set xs = set chunks"
  shows "getReceivedData tid (fold handleDataChunk xs rx) = concat (map d [0..<n])"
proof (cases "n = 0")
  case True
  then have "xs = []" using all chunks by simp
  then show ?thesis using True fresh by (simp add: getReceivedData_def)
next
  case False
  let ?chunk = "\<lambda>i. \<lparr>chunkID = tid, sequenceNumber = of_nat i, totalChunks = of_nat n,
                      chunk_data = d i, isLastChunk = l i\<rparr>"
  let ?final = "fold handleDataChunk xs rx"
  let ?m = "received_for tid ?final"
  have mem: "c \<in> set xs \<longleftrightarrow> (\<exists>i<n. c = ?chunk i)" for c
    unfolding all chunks by auto
  have ids: "\<forall>c\<in>set xs. chunkID c = tid" using mem by auto
  have inj: "inj_on sequenceNumber (set xs)"
  proof (rule inj_onI)
    fix a b assume "a \<in> set xs" "b \<in> set xs" and eq: "sequenceNumber a = sequenceNumber b"
    then obtain i j where i: "i < n" "a = ?chunk i" and j: "j < n" "b = ?chunk j"
      using mem by blast
    have "(of_nat i :: 32 word) = of_nat j" using eq i(2) j(2) by simp
    moreover have "i < 2 ^ 32" "j < 2 ^ 32" using i(1) j(1) n32 by simp_all
    ultimately have "i = j" using of_nat_32_inj by blast
    then show "a = b" using i(2) j(2) by simp
  qed
  have start: "received_for tid rx = []" using fresh(1) by (simp add: received_for_def)
  from received_inv [OF start ids inj]
  have asc: "keys_ascending ?m" and keys: "fst ` set ?m = sequenceNumber ` set xs"
    and look: "\<forall>c\<in>set xs. map_of ?m (sequenceNumber c) = Some c"
    and vals: "snd ` set ?m \<subseteq> set xs"
    by simp_all
  have "sequenceNumber ` set xs = (of_nat :: nat \<Rightarrow> 32 word) ` {0..<n}"
    unfolding all chunks by (simp add: image_image)
  moreover have "inj_on (of_nat :: nat \<Rightarrow> 32 word) {0..<n}"
  proof (rule inj_onI)
    fix i j assume "i \<in> {0..<n}" "j \<in> {0..<n}" and "(of_nat i :: 32 word) = of_nat j"
    moreover from this have "i < 2 ^ 32" "j < 2 ^ 32" using n32 by simp_all
    ultimately show "i = j" using of_nat_32_inj by blast
  qed
  ultimately have "card (fst ` set ?m) = n" unfolding keys by (simp add: card_image)
  moreover have "distinct (map fst ?m)" using asc by (rule keys_ascending_distinct)
  then have "card (set (map fst ?m)) = length (map fst ?m)" by (rule distinct_card)
  ultimately have len: "length ?m = n" by simp
  then have ne: "?m \<noteq> []" using False by auto
  then have "hd ?m \<in> set ?m" by simp
  then have "snd (hd ?m) \<in> set xs" using vals by auto
  then obtain i where "snd (hd ?m) = ?chunk i" using mem by blast
  then have "totalChunks (snd (hd ?m)) = of_nat n" by simp
  then have expected: "unat (totalChunks (snd (hd ?m))) = n" using n32 by (simp add: unat_of_nat_32)
  have "\<forall>i\<in>set [0..<n]. map_of ?m (of_nat i) = Some (?chunk i)"
  proof
    fix i assume "i \<in> set [0..<n]"
    then have "?chunk i \<in> set xs" using mem by auto
    with look have "map_of ?m (sequenceNumber (?chunk i)) = Some (?chunk i)" by (rule bspec)
    then show "map_of ?m (of_nat i) = Some (?chunk i)" by simp
  qed
  then have "collect_chunks ?m (map of_nat [0..<n]) [] =
               Some ([] @ concat (map (\<lambda>i. chunk_data (?chunk i)) [0..<n]))"
    by (rule collect_chunks_all)
  then have coll: "collect_chunks ?m (map of_nat [0..<unat (totalChunks (snd (hd ?m)))]) [] =
               Some (concat (map d [0..<n]))"
    unfolding expected by simp
  have full: "\<not> length ?m < unat (totalChunks (snd (hd ?m)))" unfolding expected len by simp
  have "xs \<noteq> []" using all chunks False by auto
  then obtain ys c where xs: "xs = ys @ [c]" by (meson rev_exhaust)
  then have cid: "chunkID c = tid" using ids by simp
  have fin: "?final = handleDataChunk c (fold handleDataChunk ys rx)" unfolding xs by simp
  have "map_of (completedData (handleDataChunk c (fold handleDataChunk ys rx))) (chunkID c) =
          Some (concat (map d [0..<n]))"
  proof (rule completed_handle)
    show "received_for (chunkID c) (handleDataChunk c (fold handleDataChunk ys rx)) = ?m"
      unfolding cid fin ..
    show "?m \<noteq> []" by (rule ne)
    show "\<not> length ?m < unat (totalChunks (snd (hd ?m)))" by (rule full)
    show "collect_chunks ?m (map of_nat [0..<unat (totalChunks (snd (hd ?m)))]) [] =
            Some (concat (map d [0..<n]))" by (rule coll)
  qed
  then show ?thesis unfolding getReceivedData_def fin cid by simp
qed

text \<open>
  The number of chunks for any payload and any non-zero chunk size: the sum is taken
  modulo \<open>2 ^ 64\<close> and the quotient modulo \<open>2 ^ 32\<close>.
\<close>

lemma splitData_chunk_count:
  assumes cs: "chunkSize s \<noteq> 0"
  shows "\<exists>chunks. splitData B tid s = Some chunks
     \<and> length chunks =
         ((length B + unat (chunkSize s) - 1) mod 2 ^ 64 div unat (chunkSize s)) mod 2 ^ 32"
proof -
  let ?cs = "chunkSize s"
  have c0: "0 < unat ?cs" using cs by (simp add: unat_gt_0)
  have "(of_nat (length B + unat ?cs - 1) :: 64 word) = of_nat (length B + unat ?cs) - of_nat 1"
    using c0 by (intro of_nat_diff) simp
  then have eq: "(of_nat (length B) + ?cs - 1 :: 64 word) = of_nat (length B + unat ?cs - 1)"
    by simp
  have "unat (of_nat (length B) + ?cs - 1) = (length B + unat ?cs - 1) mod 2 ^ 64"
    unfolding eq by (simp add: unat_of_nat)
  then have d: "unat ((of_nat (length B) + ?cs - 1) div ?cs) =
      (length B + unat ?cs - 1) mod 2 ^ 64 div unat ?cs"
    by (simp add: unat_div)
  have "unat (ucast ((of_nat (length B) + ?cs - 1) div ?cs) :: 32 word) =
      unat ((of_nat (length B) + ?cs - 1) div ?cs) mod 2 ^ 32"
    by (simp add: unsigned_ucast_eq take_bit_eq_mod)
  then show ?thesis
    using cs by (simp add: splitData_def Let_def d)
qed

text \<open>
  Claim C2, with the bounds under which the \<open>size_t\<close> and \<open>uint32_t\<close> arithmetic of
  \<open>splitData\<close> does not wrap. For a non-zero chunk size \<open>cs\<close> and a payload \<open>B\<close> with
  \<open>|B| + cs - 1 < 2 ^ 64\<close> and \<open>\<lceil>|B| / cs\<rceil> < 2 ^ 32\<close>, \<open>splitData\<close> returns
  \<open>\<lceil>|B| / cs\<rceil>\<close> chunks; chunk \<open>i\<close> carries the transfer id, sequence number \<open>i\<close>, the
  common chunk count, the bytes \<open>B[i * cs ..< min ((i + 1) * cs) |B|]\<close>, and the last-chunk
  flag exactly when \<open>i\<close> is the last index; the chunk payloads concatenated in order are
  \<open>B\<close>; and a receiver that holds nothing for this transfer id and is handed the chunks in
  any order, repeats allowed, ends with \<open>B\<close> as the received data of the transfer.
\<close>

theorem splitData_reassemble_roundtrip:
  assumes "chunkSize s \<noteq> 0"
    and "length B + unat (chunkSize s) - 1 < 2 ^ 64"
    and "(length B + unat (chunkSize s) - 1) div unat (chunkSize s) < 2 ^ 32"
  shows "\<exists>chunks. splitData B tid s = Some chunks
     \<and> length chunks = (length B + unat (chunkSize s) - 1) div unat (chunkSize s)
     \<and> (\<forall>i < length chunks.
           chunks ! i = \<lparr>chunkID = tid, sequenceNumber = of_nat i,
                         totalChunks = of_nat (length chunks),
                         chunk_data = take (unat (chunkSize s)) (drop (i * unat (chunkSize s)) B),
                         isLastChunk = (i = length chunks - 1)\<rparr>)
     \<and> concat (map chunk_data chunks) = B
     \<and> (\<forall>rx xs. map_of (receivedChunks rx) tid = None \<and> map_of (completedData rx) tid = None
                 \<and> set xs = set chunks \<longrightarrow>
               getReceivedData tid (fold handleDataChunk xs rx) = B)"
proof -
  let ?c = "unat (chunkSize s)"
  let ?n = "(length B + ?c - 1) div ?c"
  let ?chunk = "\<lambda>i. \<lparr>chunkID = tid, sequenceNumber = of_nat i, totalChunks = of_nat ?n,
                      chunk_data = take ?c (drop (i * ?c) B), isLastChunk = (i = ?n - 1)\<rparr>"
  let ?chunks = "map ?chunk [0..<?n]"
  have c0: "0 < ?c" using assms(1) by (simp add: unat_gt_0)
  have split: "splitData B tid s = Some ?chunks" using assms by (rule splitData_value)
  have len: "length ?chunks = ?n" by simp
  have nth: "\<forall>i < length ?chunks.
           ?chunks ! i = \<lparr>chunkID = tid, sequenceNumber = of_nat i,
                         totalChunks = of_nat (length ?chunks),
                         chunk_data = take ?c (drop (i * ?c) B),
                         isLastChunk = (i = length ?chunks - 1)\<rparr>"
    by (simp only: len) simp
  have "concat (map chunk_data ?chunks) = concat (map (\<lambda>i. take ?c (drop (i * ?c) B)) [0..<?n])"
    by (simp add: comp_def)
  also have "\<dots> = B" using c0 by (rule concat_all_pieces)
  finally have cat: "concat (map chunk_data ?chunks) = B" .
  have rx: "\<forall>rx xs. map_of (receivedChunks rx) tid = None \<and> map_of (completedData rx) tid = None
                 \<and> set xs = set ?chunks \<longrightarrow>
               getReceivedData tid (fold handleDataChunk xs rx) = B"
  proof (intro allI impI)
    fix rx :: DataExchange and xs
    assume h: "map_of (receivedChunks rx) tid = None \<and> map_of (completedData rx) tid = None
                 \<and> set xs = set ?chunks"
    have "getReceivedData tid (fold handleDataChunk xs rx) =
            concat (map (\<lambda>i. take ?c (drop (i * ?c) B)) [0..<?n])"
      using refl assms(3) h [THEN conjunct1] h [THEN conjunct2, THEN conjunct1]
        h [THEN conjunct2, THEN conjunct2]
      by (rule receive_all)
    also have "\<dots> = B" using c0 by (rule concat_all_pieces)
    finally show "getReceivedData tid (fold handleDataChunk xs rx) = B" .
  qed
  from split len nth cat rx show ?thesis by blast
qed


theorem splitData_reassemble_roundtrip_witness:
  "chunkSize (demo_exchange 4) \<noteq> 0
   \<and> length [10, 11, 12, 13, 14, 15, 16, 17, 18, 19 :: byte] + unat (chunkSize (demo_exchange 4)) - 1
         < 2 ^ 64
   \<and> (length [10, 11, 12, 13, 14, 15, 16, 17, 18, 19 :: byte] + unat (chunkSize (demo_exchange 4)) - 1)
         div unat (chunkSize (demo_exchange 4)) < 2 ^ 32
   \<and> splitData [10, 11, 12, 13, 14, 15, 16, 17, 18, 19] 9 (demo_exchange 4) =
       Some [\<lparr>chunkID = 9, sequenceNumber = 0, totalChunks = 3, chunk_data = [10, 11, 12, 13],
               isLastChunk = False\<rparr>,
             \<lparr>chunkID = 9, sequenceNumber = 1, totalChunks = 3, chunk_data = [14, 15, 16, 17],
               isLastChunk = False\<rparr>,
             \<lparr>chunkID = 9, sequenceNumber = 2, totalChunks = 3, chunk_data = [18, 19],
               isLastChunk = True\<rparr>]
   \<and> getReceivedData 9
         (fold handleDataChunk
            [\<lparr>chunkID = 9, sequenceNumber = 2, totalChunks = 3, chunk_data = [18, 19],
               isLastChunk = True\<rparr>,
             \<lparr>chunkID = 9, sequenceNumber = 0, totalChunks = 3, chunk_data = [10, 11, 12, 13],
               isLastChunk = False\<rparr>,
             \<lparr>chunkID = 9, sequenceNumber = 1, totalChunks = 3, chunk_data = [14, 15, 16, 17],
               isLastChunk = False\<rparr>]
            (demo_exchange 4)) =
       [10, 11, 12, 13, 14, 15, 16, 17, 18, 19]"
proof -
  let ?B = "[10, 11, 12, 13, 14, 15, 16, 17, 18, 19 :: byte]"
  let ?c0 = "\<lparr>chunkID = 9, sequenceNumber = 0, totalChunks = 3, chunk_data = [10, 11, 12, 13 :: byte],
               isLastChunk = False\<rparr>"
  let ?c1 = "\<lparr>chunkID = 9, sequenceNumber = 1, totalChunks = 3, chunk_data = [14, 15, 16, 17 :: byte],
               isLastChunk = False\<rparr>"
  let ?c2 = "\<lparr>chunkID = 9, sequenceNumber = 2, totalChunks = 3, chunk_data = [18, 19 :: byte],
               isLastChunk = True\<rparr>"
  have h1: "chunkSize (demo_exchange 4) \<noteq> 0" by (simp add: demo_exchange_def)
  have h2: "length ?B + unat (chunkSize (demo_exchange 4)) - 1 < 2 ^ 64"
    by (simp add: demo_exchange_def)
  have h3: "(length ?B + unat (chunkSize (demo_exchange 4)) - 1) div unat (chunkSize (demo_exchange 4))
              < 2 ^ 32"
    by (simp add: demo_exchange_def)
  have sp: "splitData ?B 9 (demo_exchange 4) = Some [?c0, ?c1, ?c2]"
    by code_simp
  from splitData_reassemble_roundtrip [OF h1 h2 h3, of 9] sp
  have r: "\<forall>rx xs. map_of (receivedChunks rx) 9 = None \<and> map_of (completedData rx) 9 = None
                 \<and> set xs = set [?c0, ?c1, ?c2] \<longrightarrow>
               getReceivedData 9 (fold handleDataChunk xs rx) = ?B"
    by (elim exE conjE) simp
  have "map_of (receivedChunks (demo_exchange 4)) 9 = None \<and>
        map_of (completedData (demo_exchange 4)) 9 = None \<and> set [?c2, ?c0, ?c1] = set [?c0, ?c1, ?c2]"
    by (auto simp: demo_exchange_def)
  with r have "getReceivedData 9 (fold handleDataChunk [?c2, ?c0, ?c1] (demo_exchange 4)) = ?B"
    by blast
  with h1 h2 h3 sp show ?thesis by blast
qed

text \<open>
  Claim C2 as stated (every chunk size above 0) fails where the count wraps. With the
  largest chunk size a \<open>size_t\<close> can hold,
  \<open>totalSize + chunkSize_ - 1\<close> is \<open>2 + (2 ^ 64 - 1) - 1 = 2 ^ 64\<close>, which is 0 in
  \<open>size_t\<close>: a two-byte payload is split into no chunk at all, where
  \<open>\<lceil>2 / (2 ^ 64 - 1)\<rceil> = 1\<close>, and nothing reaches the receiver.
\<close>

theorem splitData_wraps_counterexample:
  "chunkSize (demo_exchange 0xFFFFFFFFFFFFFFFF) \<noteq> 0
   \<and> (length [0, 0 :: byte] + unat (chunkSize (demo_exchange 0xFFFFFFFFFFFFFFFF)) - 1)
         div unat (chunkSize (demo_exchange 0xFFFFFFFFFFFFFFFF)) = 1
   \<and> splitData [0, 0] 9 (demo_exchange 0xFFFFFFFFFFFFFFFF) = Some []
   \<and> getReceivedData 9 (fold handleDataChunk [] (demo_exchange 0xFFFFFFFFFFFFFFFF)) \<noteq> [0, 0]"
proof -
  have a: "chunkSize (demo_exchange 0xFFFFFFFFFFFFFFFF) \<noteq> 0" by (simp add: demo_exchange_def)
  have b: "(length [0, 0 :: byte] + unat (chunkSize (demo_exchange 0xFFFFFFFFFFFFFFFF)) - 1)
         div unat (chunkSize (demo_exchange 0xFFFFFFFFFFFFFFFF)) = 1"
    by (simp add: demo_exchange_def)
  have c: "splitData [0, 0] 9 (demo_exchange 0xFFFFFFFFFFFFFFFF) = Some []"
    by (simp add: splitData_def demo_exchange_def)
  have d: "getReceivedData 9 (fold handleDataChunk [] (demo_exchange 0xFFFFFFFFFFFFFFFF)) \<noteq> [0, 0]"
    by (simp add: getReceivedData_def demo_exchange_def)
  from a b c d show ?thesis by blast
qed

end
